theory Spec2Isabelle
  imports Complex_Main "HOL-Library.Log_Nat"
begin

unbundle bit_operations_syntax

section \<open>Frame sampling and resizing of \<^verbatim>\<open>nodes/video_loaders.py\<close>\<close>

text \<open>
  The development embeds \<^verbatim>\<open>target_size\<close>, \<^verbatim>\<open>process_video_cap\<close> and
  \<^verbatim>\<open>load_video_cv\<close>.

  Conventions of the embedding.
  \<^item> Python's \<^verbatim>\<open>int\<close> is \<^typ>\<open>int\<close>; \<^verbatim>\<open>//\<close> is \<open>div\<close> (both round towards minus
    infinity) and \<^verbatim>\<open>&\<close>, \<^verbatim>\<open>~\<close> are \<open>AND\<close>, \<open>NOT\<close> on the two's-complement integers.
  \<^item> A Python \<^verbatim>\<open>float\<close> (\<^verbatim>\<open>start_sec\<close>, \<^verbatim>\<open>end_sec\<close>, \<^verbatim>\<open>curr_frame\<close>) is a
    \<^typ>\<open>rat\<close>, the value of a finite IEEE-754 double. Every operation on floats is the
    exact operation followed by \<open>round_double\<close>, the rounding to the nearest double with
    ties to the even significand, subnormal doubles included. The exponent has no upper
    bound here: a result of magnitude \<open>2 ^ 1024\<close> or more, where the double is an infinity
    or the conversion raises \<^verbatim>\<open>OverflowError\<close>, is outside the model, as are infinities
    and NaN.
    The arguments \<^verbatim>\<open>start_sec\<close> and \<^verbatim>\<open>end_sec\<close> are floats, as the \<^verbatim>\<open>FLOAT\<close> inputs of
    the node are.
  \<^item> An exception is a value of \<open>py_error\<close>, returned as \<open>Inl\<close>.
  \<^item> The decoder \<^verbatim>\<open>cv2.VideoCapture\<close>, the frame conversion and \<^verbatim>\<open>common_upscale\<close>
    are libraries outside the file: they are parameters, the decoder with an explicit
    state \<open>'s\<close> that every call threads through.
  \<^item> The \<^verbatim>\<open>while True\<close> loop is a \<^theory_text>\<open>partial_function\<close> in the option monad:
    \<open>None\<close> stands for a loop that does not return.
\<close>

subsection \<open>Exceptions\<close>

datatype py_error =
    VideoNotLoaded      \<comment> \<open>\<^verbatim>\<open>ValueError(f"{video} could not be loaded with cv.")\<close>\<close>
  | InvalidLiteral      \<comment> \<open>\<^verbatim>\<open>ValueError\<close> of \<^verbatim>\<open>int(str)\<close>\<close>
  | IndexError          \<comment> \<open>a list index out of range\<close>
  | ZeroDivisionError   \<comment> \<open>\<^verbatim>\<open>/\<close> or \<^verbatim>\<open>//\<close> by zero\<close>
  | NoFramesGenerated   \<comment> \<open>\<^verbatim>\<open>RuntimeError("No frames generated")\<close>\<close>

subsection \<open>Python primitives\<close>

text \<open>
  The doubles. For \<open>x > 0\<close>, \<open>flog2 x\<close> is the integer \<open>e\<close> with
  \<open>2 ^ e \<le> x < 2 ^ (e + 1)\<close>; \<open>ulp x\<close> is the distance between the doubles around
  \<open>x\<close>, with 53 significant bits and the least exponent \<open>- 1022\<close>; \<open>round_double\<close>
  takes \<open>x\<close> to the nearest multiple of \<open>ulp x\<close>, a tie to the even multiple.
\<close>

definition flog2 :: "rat \<Rightarrow> int" where
  "flog2 x = (if 1 \<le> x then bitlen \<lfloor>x\<rfloor> - 1 else - bitlen (\<lceil>1 / x\<rceil> - 1))"

definition round_half_even :: "rat \<Rightarrow> int" where
  "round_half_even r =
     (let f = \<lfloor>r\<rfloor>; d = r - of_int f
      in if d < 1 / 2 then f else if 1 / 2 < d then f + 1 else if even f then f else f + 1)"

definition ulp :: "rat \<Rightarrow> rat" where
  "ulp x = 2 powi (max (flog2 \<bar>x\<bar>) (- 1022) - 52)"

definition round_double :: "rat \<Rightarrow> rat" where
  "round_double x =
     (if x = 0 then 0 else sgn x * of_int (round_half_even (\<bar>x\<bar> / ulp x)) * ulp x)"

text \<open>
  The arithmetic of Python on floats: the conversion of an \<^verbatim>\<open>int\<close> operand of a mixed
  operation, the true division \<^verbatim>\<open>/\<close> of two \<^verbatim>\<open>int\<close>s (correctly rounded), and
  \<^verbatim>\<open>-\<close>, \<^verbatim>\<open>*\<close>, \<^verbatim>\<open>+\<close> of two floats.
\<close>

definition float_of_int :: "int \<Rightarrow> rat" where
  "float_of_int n = round_double (of_int n)"

definition int_truediv :: "int \<Rightarrow> int \<Rightarrow> rat" where
  "int_truediv a b = round_double (of_int a / of_int b)"

definition float_sub :: "rat \<Rightarrow> rat \<Rightarrow> rat" where
  "float_sub x y = round_double (x - y)"

definition float_mul :: "rat \<Rightarrow> rat \<Rightarrow> rat" where
  "float_mul x y = round_double (x * y)"

definition float_add :: "rat \<Rightarrow> rat \<Rightarrow> rat" where
  "float_add x y = round_double (x + y)"

text \<open>\<^verbatim>\<open>int(x)\<close> of a float truncates towards zero.\<close>

definition int_float :: "rat \<Rightarrow> int" where
  "int_float x = (if 0 \<le> x then \<lfloor>x\<rfloor> else \<lceil>x\<rceil>)"

text \<open>\<^verbatim>\<open>s.split("x")\<close>: the pieces between the occurrences of the separator, at least one.\<close>

fun split_on :: "char \<Rightarrow> string \<Rightarrow> string list" where
  "split_on sep [] = [[]]"
| "split_on sep (c # cs) =
     (if c = sep then [] # split_on sep cs
      else (case split_on sep cs of
              [] \<Rightarrow> [[c]]
            | p # ps \<Rightarrow> (c # p) # ps))"

text \<open>
  \<^verbatim>\<open>int(s)\<close> of a string, base ten, on ASCII text: surrounding whitespace (the space and
  the characters 9 to 13) is dropped, one sign is allowed, then decimal digits, where
  single underscores may separate digits. Anything else is a \<^verbatim>\<open>ValueError\<close> (\<open>None\<close>
  here).
\<close>

definition is_digit :: "char \<Rightarrow> bool" where
  "is_digit c = (c \<in> set ''0123456789'')"

definition digit_val :: "char \<Rightarrow> int" where
  "digit_val c = int (of_char c) - 48"

definition is_space :: "char \<Rightarrow> bool" where
  "is_space c = (let n = (of_char c :: nat) in (9 \<le> n \<and> n \<le> 13) \<or> n = 32)"

fun parse_digits :: "string \<Rightarrow> int \<Rightarrow> int option" where
  "parse_digits [] acc = Some acc"
| "parse_digits [c] acc = (if is_digit c then Some (10 * acc + digit_val c) else None)"
| "parse_digits (c # d # ds) acc =
     (if is_digit c then parse_digits (d # ds) (10 * acc + digit_val c)
      else if c = CHR ''_'' \<and> is_digit d then parse_digits ds (10 * acc + digit_val d)
      else None)"

definition parse_unsigned :: "string \<Rightarrow> int option" where
  "parse_unsigned s =
     (case s of
        [] \<Rightarrow> None
      | c # cs \<Rightarrow> if is_digit c then parse_digits cs (digit_val c) else None)"

definition strip :: "string \<Rightarrow> string" where
  "strip s = rev (dropWhile is_space (rev (dropWhile is_space s)))"

definition int_str :: "string \<Rightarrow> int option" where
  "int_str s =
     (case strip s of
        [] \<Rightarrow> None
      | c # cs \<Rightarrow>
          if c = CHR ''-'' then map_option uminus (parse_unsigned cs)
          else if c = CHR ''+'' then parse_unsigned cs
          else parse_unsigned (c # cs))"

subsection \<open>\<^verbatim>\<open>target_size\<close> (lines 39--55)\<close>

text \<open>
  In each branch the conversion \<^verbatim>\<open>int(force_size[i])\<close> is evaluated before the division,
  so a malformed axis is reported before a zero divisor.
\<close>

definition target_size :: "int \<Rightarrow> int \<Rightarrow> string \<Rightarrow> py_error + (int \<times> int)" where
  "target_size width height force_size =
     (if force_size \<noteq> ''Disabled'' then
        (case split_on CHR ''x'' force_size of
           [] \<Rightarrow> Inl IndexError
         | [a] \<Rightarrow> Inl IndexError
         | a # b # rest \<Rightarrow>
             if a = ''?'' then
               (case int_str b of
                  None \<Rightarrow> Inl InvalidLiteral
                | Some hb \<Rightarrow>
                    if height = 0 then Inl ZeroDivisionError
                    else Inr (((width * hb) div height + 4) AND NOT 7, hb))
             else if b = ''?'' then
               (case int_str a of
                  None \<Rightarrow> Inl InvalidLiteral
                | Some wa \<Rightarrow>
                    if width = 0 then Inl ZeroDivisionError
                    else Inr (wa, ((height * wa) div width + 4) AND NOT 7))
             else
               (case int_str a of
                  None \<Rightarrow> Inl InvalidLiteral
                | Some wa \<Rightarrow>
                    (case int_str b of
                       None \<Rightarrow> Inl InvalidLiteral
                     | Some hb \<Rightarrow> Inr (wa, hb))))
      else Inr (width, height))"

subsection \<open>The sampling arithmetic of \<^verbatim>\<open>process_video_cap\<close> (lines 74--99)\<close>

text \<open>Lines 78--79: \<^verbatim>\<open>if not frame_load_cap or frame_load_cap <= 0: frame_load_cap = 999999\<close>.\<close>

definition effective_cap :: "int \<Rightarrow> int" where
  "effective_cap frame_load_cap = (if frame_load_cap = 0 \<or> frame_load_cap \<le> 0 then 999999 else frame_load_cap)"

text \<open>Lines 81--82: \<^verbatim>\<open>if not end_sec: end_sec = frame_count / fps\<close>, a true division.\<close>

definition effective_end_sec :: "int \<Rightarrow> int \<Rightarrow> rat \<Rightarrow> py_error + rat" where
  "effective_end_sec fps frame_count end_sec =
     (if end_sec = 0 then
        (if fps = 0 then Inl ZeroDivisionError else Inr (int_truediv frame_count fps))
      else Inr end_sec)"

text \<open>Lines 85--86.\<close>

definition original_frame_length :: "int \<Rightarrow> rat \<Rightarrow> rat \<Rightarrow> int" where
  "original_frame_length fps start_sec end_sec =
     (let video_sec = float_sub end_sec start_sec
      in int_float (float_mul video_sec (float_of_int fps)))"

text \<open>Line 88; the cap is the effective one, which is positive.\<close>

definition initial_step :: "int \<Rightarrow> int \<Rightarrow> int" where
  "initial_step frame_length frame_load_cap = max (frame_length div frame_load_cap) 1"

text \<open>Line 92: the condition under which \<^verbatim>\<open>logger.warning\<close> is called.\<close>

definition lossy_adjustment :: "int \<Rightarrow> int \<Rightarrow> bool" where
  "lossy_adjustment step new_fps = ((step * new_fps) mod new_fps \<noteq> 0)"

text \<open>
  Lines 91--95: \<^verbatim>\<open>if max_fps and 0 < max_fps < new_fps\<close>, where \<^verbatim>\<open>max_fps\<close> may be
  \<^verbatim>\<open>None\<close>. The result is \<^verbatim>\<open>(step, new_fps)\<close> after the statement, and whether
  \<^verbatim>\<open>logger.warning\<close> was called.
\<close>

definition clamp_max_fps :: "int option \<Rightarrow> int \<Rightarrow> int \<Rightarrow> int \<times> int \<times> bool" where
  "clamp_max_fps max_fps step new_fps =
     (case max_fps of
        None \<Rightarrow> (step, new_fps, False)
      | Some m \<Rightarrow>
          if m \<noteq> 0 \<and> 0 < m \<and> m < new_fps
          then (int_float (float_mul (int_truediv step m) (float_of_int new_fps)), m,
                lossy_adjustment step new_fps)
          else (step, new_fps, False))"

text \<open>The local variables of \<^verbatim>\<open>process_video_cap\<close> when the loop starts.\<close>

record plan =
  plan_frame_load_cap :: int
  plan_end_sec :: rat
  plan_original_frame_length :: int
  plan_step :: int
  plan_new_fps :: int
  plan_start_frame :: rat
  plan_end_frame :: rat
  plan_warned :: bool

definition sampling_plan ::
  "int \<Rightarrow> int \<Rightarrow> rat \<Rightarrow> rat \<Rightarrow> int \<Rightarrow> int option \<Rightarrow> py_error + plan" where
  "sampling_plan fps frame_count start_sec end_sec frame_load_cap max_fps =
     (let cap = effective_cap frame_load_cap in
      case effective_end_sec fps frame_count end_sec of
        Inl e \<Rightarrow> Inl e
      | Inr end_sec' \<Rightarrow>
          (let frame_length = original_frame_length fps start_sec end_sec';
               step = initial_step frame_length cap;
               new_fps = fps div step;
               clamped = clamp_max_fps max_fps step new_fps;
               step' = fst clamped;
               new_fps' = fst (snd clamped);
               warned = snd (snd clamped)
           in Inr \<lparr> plan_frame_load_cap = cap,
                    plan_end_sec = end_sec',
                    plan_original_frame_length = frame_length,
                    plan_step = step',
                    plan_new_fps = new_fps',
                    plan_start_frame = float_mul (float_of_int fps) start_sec,
                    plan_end_frame = float_mul (float_of_int fps) end_sec',
                    plan_warned = warned \<rparr>))"

subsection \<open>The decoder and the acquisition loop (lines 101--129)\<close>

text \<open>
  \<open>VideoCapture\<close> is \<^verbatim>\<open>cv2.VideoCapture(video)\<close> followed by \<^verbatim>\<open>isOpened()\<close>: \<open>None\<close>
  when the video could not be opened. The four properties are the values of
  \<^verbatim>\<open>int(video_cap.get(...))\<close>. \<open>set_pos_frames\<close> is
  \<^verbatim>\<open>video_cap.set(cv2.CAP_PROP_POS_FRAMES, i)\<close> and \<open>read\<close> is \<^verbatim>\<open>video_cap.read()\<close>,
  whose \<^verbatim>\<open>(ret, frame)\<close> is an option.
\<close>

record ('s, 'f) cv2 =
  VideoCapture :: "string \<Rightarrow> 's option"
  get_fps :: "'s \<Rightarrow> int"
  get_frame_width :: "'s \<Rightarrow> int"
  get_frame_height :: "'s \<Rightarrow> int"
  get_frame_count :: "'s \<Rightarrow> int"
  set_pos_frames :: "int \<Rightarrow> 's \<Rightarrow> 's"
  read :: "'s \<Rightarrow> 'f option \<times> 's"

partial_function (option) frame_loop ::
  "('s, 'f) cv2 \<Rightarrow> ('f \<Rightarrow> 't) \<Rightarrow> int \<Rightarrow> rat \<Rightarrow> int \<Rightarrow> 's \<Rightarrow> rat \<Rightarrow> 't list \<Rightarrow> int
     \<Rightarrow> ('t list \<times> int \<times> 's) option" where
  "frame_loop video_cap frame_to_tensor frame_load_cap end_frame step s curr_frame images frames_added =
     (let int_curr_frame = int_float curr_frame;
          s1 = set_pos_frames video_cap int_curr_frame s
      in case read video_cap s1 of
           (None, s2) \<Rightarrow> Some (images, frames_added, s2)
         | (Some frame, s2) \<Rightarrow>
             (let images' = images @ [frame_to_tensor frame];
                  frames_added' = frames_added + 1
              in if frame_load_cap > 0 \<and> frames_added' \<ge> frame_load_cap
                 then Some (images', frames_added', s2)
                 else if curr_frame \<ge> end_frame
                 then Some (images', frames_added', s2)
                 else frame_loop video_cap frame_to_tensor frame_load_cap end_frame step s2
                        (float_add curr_frame (float_of_int step)) images' frames_added'))"

declare frame_loop.simps [code]

text \<open>
  \<^verbatim>\<open>process_video_cap\<close>: the outer \<open>option\<close> is \<open>None\<close> when the loop does not return; the
  value is the returned tuple \<^verbatim>\<open>(images, frames_added, new_fps, width, height)\<close>.
\<close>

definition process_video_cap ::
  "('s, 'f) cv2 \<Rightarrow> ('f \<Rightarrow> 't) \<Rightarrow> 's \<Rightarrow> rat \<Rightarrow> rat \<Rightarrow> int \<Rightarrow> int option
     \<Rightarrow> (py_error + ('t list \<times> int \<times> int \<times> int \<times> int)) option" where
  "process_video_cap video_cap frame_to_tensor s start_sec end_sec frame_load_cap max_fps =
     (let fps = get_fps video_cap s;
          width = get_frame_width video_cap s;
          height = get_frame_height video_cap s;
          frame_count = get_frame_count video_cap s
      in case sampling_plan fps frame_count start_sec end_sec frame_load_cap max_fps of
           Inl e \<Rightarrow> Some (Inl e)
         | Inr p \<Rightarrow>
             (case frame_loop video_cap frame_to_tensor (plan_frame_load_cap p) (plan_end_frame p)
                     (plan_step p) s (plan_start_frame p) [] 0 of
                None \<Rightarrow> None
              | Some (images, frames_added, s') \<Rightarrow>
                  Some (Inr (images, frames_added, plan_new_fps p, width, height))))"

subsection \<open>\<^verbatim>\<open>load_video_cv\<close> (lines 136--176)\<close>

text \<open>
  Lines 161--168, the resizing of the batch. \<open>upscale\<close> is
  \<^verbatim>\<open>common_upscale(s, w, h, "lanczos", "center")\<close> between the two \<^verbatim>\<open>movedim\<close>; the last
  component of the result lists the sizes it was called with, in order.
\<close>

definition resize_stage ::
  "('t list \<Rightarrow> int \<Rightarrow> int \<Rightarrow> 't list) \<Rightarrow> 't list \<Rightarrow> int \<Rightarrow> int \<Rightarrow> string
     \<Rightarrow> py_error + ('t list \<times> int \<times> int \<times> (int \<times> int) list)" where
  "resize_stage upscale images width height force_size =
     (if force_size \<noteq> ''Disabled'' then
        (case target_size width height force_size of
           Inl e \<Rightarrow> Inl e
         | Inr new_size \<Rightarrow>
             if fst new_size \<noteq> width \<or> snd new_size \<noteq> height
             then Inr (upscale images (fst new_size) (snd new_size), fst new_size, snd new_size,
                       [(fst new_size, snd new_size)])
             else Inr (images, width, height, []))
      else Inr (images, width, height, []))"

text \<open>
  The result is the returned tuple \<^verbatim>\<open>(images, frames_added, fps, width, height)\<close> with
  the list of resampling calls. The batch \<^verbatim>\<open>torch.cat(images, dim=0)\<close> of one-frame
  tensors is the list of the frames. The \<^verbatim>\<open>finally\<close> block releases the decoder on every
  path; nothing reads the decoder afterwards, and the release is left out.
\<close>

definition load_video_cv ::
  "('s, 'f) cv2 \<Rightarrow> ('f \<Rightarrow> 't) \<Rightarrow> ('t list \<Rightarrow> int \<Rightarrow> int \<Rightarrow> 't list) \<Rightarrow> string \<Rightarrow> rat \<Rightarrow> rat \<Rightarrow> int
     \<Rightarrow> int option \<Rightarrow> string
     \<Rightarrow> (py_error + (('t list \<times> int \<times> int \<times> int \<times> int) \<times> (int \<times> int) list)) option" where
  "load_video_cv video_cap frame_to_tensor upscale video start_sec end_sec frame_load_cap max_fps force_size =
     (case VideoCapture video_cap video of
        None \<Rightarrow> Some (Inl VideoNotLoaded)
      | Some s \<Rightarrow>
          (case process_video_cap video_cap frame_to_tensor s start_sec end_sec frame_load_cap max_fps of
             None \<Rightarrow> None
           | Some (Inl e) \<Rightarrow> Some (Inl e)
           | Some (Inr (images, frames_added, fps, width, height)) \<Rightarrow>
               if length images = 0 then Some (Inl NoFramesGenerated)
               else
                 (case resize_stage upscale images width height force_size of
                    Inl e \<Rightarrow> Some (Inl e)
                  | Inr (images', width', height', calls) \<Rightarrow>
                      Some (Inr ((images', frames_added, fps, width', height'), calls)))))"

subsection \<open>A concrete decoder for the examples\<close>

text \<open>
  A clip of 300 frames at 30 frames per second, 640 by 480; a frame is its index, the state
  is the position of the next read, and only \<^verbatim>\<open>clip.mp4\<close> opens.
\<close>

definition clip_cap :: "(int, int) cv2" where
  "clip_cap =
     \<lparr> VideoCapture = (\<lambda>video. if video = ''clip.mp4'' then Some 0 else None),
       get_fps = (\<lambda>s. 30),
       get_frame_width = (\<lambda>s. 640),
       get_frame_height = (\<lambda>s. 480),
       get_frame_count = (\<lambda>s. 300),
       set_pos_frames = (\<lambda>i s. i),
       read = (\<lambda>s. (if 0 \<le> s \<and> s < 300 then Some s else None, s + 1)) \<rparr>"

text \<open>
  A video that opens and has nothing in it: no frames, \<^verbatim>\<open>fps\<close> 0, and every read reports
  the end of the stream.
\<close>

definition empty_cap :: "(int, int) cv2" where
  "empty_cap =
     \<lparr> VideoCapture = (\<lambda>video. Some 0),
       get_fps = (\<lambda>s. 0),
       get_frame_width = (\<lambda>s. 0),
       get_frame_height = (\<lambda>s. 0),
       get_frame_count = (\<lambda>s. 0),
       set_pos_frames = (\<lambda>i s. i),
       read = (\<lambda>s. (None, s)) \<rparr>"

text \<open>
  The conversion of the examples keeps the frame; their resampler marks every frame of the
  batch, so that a resampled batch differs from the one it was given.
\<close>

definition keep_frame :: "int \<Rightarrow> int" where
  "keep_frame frame = frame"

definition mark_batch :: "int list \<Rightarrow> int \<Rightarrow> int \<Rightarrow> int list" where
  "mark_batch images w h = map (\<lambda>frame. frame + 1000) images"

text \<open>
  What is assumed of \<^verbatim>\<open>common_upscale\<close> where the length of a resized batch matters: the
  resampled batch has as many frames as the batch given.
\<close>

definition keeps_length :: "('t list \<Rightarrow> int \<Rightarrow> int \<Rightarrow> 't list) \<Rightarrow> bool" where
  "keeps_length upscale = (\<forall>images w h. length (upscale images w h) = length images)"

text \<open>The plan of the clip for a request of the whole clip, at most 50 frames, no ceiling.\<close>

definition clip_plan :: plan where
  "clip_plan =
     \<lparr> plan_frame_load_cap = 50, plan_end_sec = 10, plan_original_frame_length = 300,
       plan_step = 6, plan_new_fps = 5, plan_start_frame = 0, plan_end_frame = 300,
       plan_warned = False \<rparr>"

text \<open>The plan of the same request with \<^verbatim>\<open>max_fps=3\<close>.\<close>

definition clamped_clip_plan :: plan where
  "clamped_clip_plan =
     \<lparr> plan_frame_load_cap = 50, plan_end_sec = 10, plan_original_frame_length = 300,
       plan_step = 10, plan_new_fps = 3, plan_start_frame = 0, plan_end_frame = 300,
       plan_warned = False \<rparr>"

text \<open>
  The plan for a source of 30 frames per second and 30000 frames (1000 seconds), the whole
  clip, at most 50 frames, no ceiling.
\<close>

definition long_clip_plan :: plan where
  "long_clip_plan =
     \<lparr> plan_frame_load_cap = 50, plan_end_sec = 1000, plan_original_frame_length = 30000,
       plan_step = 600, plan_new_fps = 0, plan_start_frame = 0, plan_end_frame = 30000,
       plan_warned = False \<rparr>"

text \<open>
  The plan of the clip for a request that starts at second 20, beyond the last frame.
\<close>

definition late_plan :: plan where
  "late_plan =
     \<lparr> plan_frame_load_cap = 50, plan_end_sec = 10, plan_original_frame_length = - 300,
       plan_step = 1, plan_new_fps = 30, plan_start_frame = 600, plan_end_frame = 300,
       plan_warned = False \<rparr>"

text \<open>
  The plan for a source of 165 frames per second and 165 frames, the whole clip, at most 50
  frames, \<^verbatim>\<open>max_fps=11\<close>.
\<close>

definition short_clip_plan :: plan where
  "short_clip_plan =
     \<lparr> plan_frame_load_cap = 50, plan_end_sec = 1, plan_original_frame_length = 165,
       plan_step = 14, plan_new_fps = 11, plan_start_frame = 0, plan_end_frame = 165,
       plan_warned = False \<rparr>"

section \<open>Properties\<close>

subsection \<open>The binary exponent\<close>

lemma flog2_bounds:
  assumes "0 < x"
  shows "2 powi flog2 x \<le> x" and "x < 2 powi (flog2 x + 1)"
proof -
  have "2 powi flog2 x \<le> x \<and> x < 2 powi (flog2 x + 1)"
  proof (cases "1 \<le> x")
    case True
    define n where "n = \<lfloor>x\<rfloor>"
    have n: "0 < n" using True by (simp add: n_def)
    from bitlen_bounds [OF n] have lo: "2 ^ nat (bitlen n - 1) \<le> n" and hi: "n < 2 ^ nat (bitlen n)"
      by simp_all
    have b: "1 \<le> bitlen n" using n by (simp add: bitlen_alt_def)
    have "(2::rat) powi (bitlen n - 1) = of_int (2 ^ nat (bitlen n - 1))"
      using b by (simp add: power_int_nonneg_exp)
    also have "\<dots> \<le> of_int n" using lo by (simp only: of_int_le_iff)
    also have "\<dots> \<le> x" by (simp add: n_def)
    finally have 1: "2 powi (bitlen n - 1) \<le> x" .
    have "n + 1 \<le> 2 ^ nat (bitlen n)" using hi by simp
    then have "(of_int (n + 1) :: rat) \<le> of_int (2 ^ nat (bitlen n))"
      by (simp only: of_int_le_iff)
    moreover have "x < of_int (n + 1)" using floor_correct [of x] by (simp add: n_def)
    moreover have "(2::rat) powi bitlen n = of_int (2 ^ nat (bitlen n))"
      using b by (simp add: power_int_nonneg_exp)
    ultimately have 2: "x < 2 powi bitlen n" by simp
    from 1 2 True show ?thesis by (simp add: flog2_def n_def)
  next
    case False
    define y where "y = 1 / x"
    define m where "m = \<lceil>y\<rceil> - 1"
    have y: "1 < y" using False assms by (simp add: y_def)
    then have m: "0 < m" by (simp add: m_def less_ceiling_iff)
    from bitlen_bounds [OF m] have lo: "2 ^ nat (bitlen m - 1) \<le> m" and hi: "m < 2 ^ nat (bitlen m)"
      by simp_all
    have b: "1 \<le> bitlen m" using m by (simp add: bitlen_alt_def)
    have ym: "of_int m < y" "y \<le> of_int (m + 1)"
      using ceiling_correct [of y] by (simp_all add: m_def)
    have "m + 1 \<le> 2 ^ nat (bitlen m)" using hi by simp
    then have "(of_int (m + 1) :: rat) \<le> of_int (2 ^ nat (bitlen m))"
      by (simp only: of_int_le_iff)
    with ym have "y \<le> 2 ^ nat (bitlen m)" by simp
    then have "1 / 2 ^ nat (bitlen m) \<le> 1 / y"
      using y by (intro divide_left_mono) simp_all
    moreover have "(2::rat) powi (- bitlen m) = 1 / 2 ^ nat (bitlen m)"
      using b by (simp add: power_int_def field_simps)
    ultimately have 1: "2 powi (- bitlen m) \<le> x" by (simp add: y_def)
    have "(of_int (2 ^ nat (bitlen m - 1)) :: rat) \<le> of_int m"
      using lo by (simp only: of_int_le_iff)
    then have "(of_int (2 ^ nat (bitlen m - 1)) :: rat) < y"
      using ym(1) by (rule le_less_trans)
    then have "2 ^ nat (bitlen m - 1) < y" by simp
    then have "1 / y < 1 / 2 ^ nat (bitlen m - 1)"
      using y by (intro divide_strict_left_mono mult_pos_pos) simp_all
    moreover have "(2::rat) powi (- bitlen m + 1) = 1 / 2 ^ nat (bitlen m - 1)"
    proof -
      have "(2::rat) powi (- bitlen m + 1) = 2 powi (- (bitlen m - 1))"
        by (rule arg_cong [where f = "power_int 2"]) simp
      also have "\<dots> = 1 / 2 powi (bitlen m - 1)" by (rule power_int_minus_divide)
      also have "\<dots> = 1 / 2 ^ nat (bitlen m - 1)" using b by (simp add: power_int_nonneg_exp)
      finally show ?thesis .
    qed
    ultimately have 2: "x < 2 powi (- bitlen m + 1)" by (simp add: y_def)
    from 1 2 False show ?thesis by (simp add: flog2_def m_def y_def)
  qed
  then show "2 powi flog2 x \<le> x" and "x < 2 powi (flog2 x + 1)" by simp_all
qed

lemma powi2_less_imp: "(2::rat) powi a < 2 powi b \<Longrightarrow> a < b"
  by (rule ccontr) (use power_int_increasing [of b a "2::rat"] in simp)

lemma flog2_ge:
  assumes "0 < x" and "2 powi k \<le> x"
  shows "k \<le> flog2 x"
proof -
  have "(2::rat) powi k < 2 powi (flog2 x + 1)"
    using assms(2) flog2_bounds(2) [OF assms(1)] by simp
  then have "k < flog2 x + 1" by (rule powi2_less_imp)
  then show ?thesis by simp
qed

lemma flog2_le:
  assumes "0 < x" and "x < 2 powi (k + 1)"
  shows "flog2 x \<le> k"
proof -
  have "(2::rat) powi flog2 x < 2 powi (k + 1)"
    using assms(2) flog2_bounds(1) [OF assms(1)] by simp
  then have "flog2 x < k + 1" by (rule powi2_less_imp)
  then show ?thesis by simp
qed

lemma flog2_mono:
  assumes "0 < x" and "x \<le> y"
  shows "flog2 x \<le> flog2 y"
proof (rule flog2_ge)
  show "0 < y" using assms by simp
  show "2 powi flog2 x \<le> y" using flog2_bounds(1) [OF assms(1)] assms(2) by simp
qed

subsection \<open>Rounding to an integer\<close>

lemma round_half_even_cases:
  "round_half_even r = \<lfloor>r\<rfloor> \<or> round_half_even r = \<lfloor>r\<rfloor> + 1"
  by (simp add: round_half_even_def Let_def)

lemma round_half_even_of_int [simp]: "round_half_even (of_int n) = n"
  by (simp add: round_half_even_def)

lemma round_half_even_mono:
  assumes "r \<le> s"
  shows "round_half_even r \<le> round_half_even s"
proof (cases "\<lfloor>r\<rfloor> = \<lfloor>s\<rfloor>")
  case True
  with assms show ?thesis
    by (auto simp: round_half_even_def Let_def)
next
  case False
  with assms have "\<lfloor>r\<rfloor> + 1 \<le> \<lfloor>s\<rfloor>"
    using floor_mono [OF assms] by simp
  moreover have "round_half_even r \<le> \<lfloor>r\<rfloor> + 1" "\<lfloor>s\<rfloor> \<le> round_half_even s"
    using round_half_even_cases [of r] round_half_even_cases [of s] by auto
  ultimately show ?thesis by simp
qed

lemma round_half_even_lower: "r - 1 / 2 \<le> of_int (round_half_even r)"
proof -
  have "r < of_int \<lfloor>r\<rfloor> + 1" by linarith
  then show ?thesis
    by (auto simp: round_half_even_def Let_def)
qed

lemma round_half_even_le:
  "r \<le> of_int n \<Longrightarrow> round_half_even r \<le> n"
  using round_half_even_mono [of r "of_int n"] by simp

lemma round_half_even_ge:
  "of_int n \<le> r \<Longrightarrow> n \<le> round_half_even r"
  using round_half_even_mono [of "of_int n" r] by simp

subsection \<open>Rounding to a double\<close>

lemma ulp_pos [simp]: "0 < ulp x"
  by (simp add: ulp_def)

lemma ulp_nonneg [simp]: "0 \<le> ulp x"
  by (rule less_imp_le) (rule ulp_pos)

lemma ulp_neq_0 [simp]: "ulp x \<noteq> 0"
  by (simp add: ulp_def)

lemma ulp_abs [simp]: "ulp (- x) = ulp x"
  by (simp add: ulp_def)

lemma round_double_0 [simp]: "round_double 0 = 0"
  by (simp add: round_double_def)

lemma round_double_minus: "round_double (- x) = - round_double x"
  by (simp add: round_double_def sgn_minus)

lemma round_double_pos_eq:
  "0 < x \<Longrightarrow> round_double x = of_int (round_half_even (x / ulp x)) * ulp x"
  by (simp add: round_double_def)

lemma round_double_nonneg:
  assumes "0 \<le> x"
  shows "0 \<le> round_double x"
proof (cases "x = 0")
  case True
  then show ?thesis by simp
next
  case False
  with assms have x: "0 < x" by simp
  have "0 \<le> x / ulp x" using assms by (simp add: zero_le_divide_iff)
  then have "0 \<le> round_half_even (x / ulp x)"
    using round_half_even_ge [of 0 "x / ulp x"] by simp
  then show ?thesis
    using x by (simp add: round_double_pos_eq)
qed

lemma powi2_split: "(2::rat) powi (a + b) = 2 powi a * 2 powi b"
  by (rule power_int_add) simp

lemma powi2_shift_52: "(2::rat) powi e = 2 ^ 52 * 2 powi (e - 52)"
proof -
  have "(2::rat) powi e = 2 powi (52 + (e - 52))"
    by (rule arg_cong [where f = "power_int 2"]) simp
  also have "\<dots> = 2 powi 52 * 2 powi (e - 52)" by (rule powi2_split)
  finally show ?thesis by simp
qed

lemma powi2_shift_53: "(2::rat) powi (e + 1) = 2 ^ 53 * 2 powi (e - 52)"
proof -
  have "(2::rat) powi (e + 1) = 2 powi (53 + (e - 52))"
    by (rule arg_cong [where f = "power_int 2"]) simp
  also have "\<dots> = 2 powi 53 * 2 powi (e - 52)" by (rule powi2_split)
  finally show ?thesis by simp
qed

lemma round_double_upper:
  assumes "0 < x"
  shows "round_double x \<le> 2 powi (max (flog2 x) (- 1022) + 1)"
proof -
  define E where "E = max (flog2 x) (- 1022)"
  have q: "ulp x = 2 powi (E - 52)" using assms by (simp add: ulp_def E_def)
  have "x < 2 powi (flog2 x + 1)" by (rule flog2_bounds(2) [OF assms])
  also have "\<dots> \<le> 2 powi (E + 1)" by (intro power_int_increasing) (simp_all add: E_def)
  finally have "x < 2 powi (E + 1)" .
  moreover note powi2_shift_53 [of E]
  ultimately have "x / ulp x \<le> of_int (2 ^ 53)"
    by (simp add: q pos_divide_le_eq)
  then have "round_half_even (x / ulp x) \<le> 2 ^ 53" by (rule round_half_even_le)
  then have "(of_int (round_half_even (x / ulp x)) :: rat) \<le> of_int (2 ^ 53)"
    by (simp only: of_int_le_iff)
  then have "of_int (round_half_even (x / ulp x)) * ulp x \<le> of_int (2 ^ 53) * ulp x"
    by (intro mult_right_mono) simp_all
  also have "\<dots> = 2 powi (E + 1)"
    by (simp add: q powi2_shift_53 [of E])
  finally show ?thesis using assms by (simp add: round_double_pos_eq E_def)
qed

lemma round_double_lower:
  assumes "0 < x" and "- 1022 \<le> flog2 x"
  shows "2 powi flog2 x \<le> round_double x"
proof -
  have q: "ulp x = 2 powi (flog2 x - 52)" using assms by (simp add: ulp_def max_def)
  note p = powi2_shift_52 [of "flog2 x"]
  have "2 powi flog2 x \<le> x" by (rule flog2_bounds(1) [OF assms(1)])
  then have "of_int (2 ^ 52) \<le> x / ulp x"
    by (simp add: q p pos_le_divide_eq)
  then have "2 ^ 52 \<le> round_half_even (x / ulp x)" by (rule round_half_even_ge)
  then have "(of_int (2 ^ 52) :: rat) \<le> of_int (round_half_even (x / ulp x))"
    by (simp only: of_int_le_iff)
  then have "of_int (2 ^ 52) * ulp x \<le> of_int (round_half_even (x / ulp x)) * ulp x"
    by (intro mult_right_mono) simp_all
  moreover have "2 powi flog2 x = of_int (2 ^ 52) * ulp x"
    by (simp add: q p)
  moreover have "round_double x = of_int (round_half_even (x / ulp x)) * ulp x"
    using assms(1) by (rule round_double_pos_eq)
  ultimately show ?thesis by (simp only:)
qed

lemma round_double_mono_pos:
  assumes "0 < x" and "x \<le> y"
  shows "round_double x \<le> round_double y"
proof -
  have y: "0 < y" using assms by simp
  define Ex where "Ex = max (flog2 x) (- 1022)"
  define Ey where "Ey = max (flog2 y) (- 1022)"
  have le: "Ex \<le> Ey" using flog2_mono [OF assms] by (simp add: Ex_def Ey_def)
  show ?thesis
  proof (cases "Ex = Ey")
    case True
    then have q: "ulp x = ulp y" using assms y by (simp add: ulp_def Ex_def Ey_def)
    have "x / ulp y \<le> y / ulp y" using assms(2) by (simp add: divide_right_mono)
    then have "round_half_even (x / ulp y) \<le> round_half_even (y / ulp y)"
      by (rule round_half_even_mono)
    then have "(of_int (round_half_even (x / ulp y)) :: rat) \<le> of_int (round_half_even (y / ulp y))"
      by (simp only: of_int_le_iff)
    then have "of_int (round_half_even (x / ulp y)) * ulp y \<le> of_int (round_half_even (y / ulp y)) * ulp y"
      by (intro mult_right_mono) simp_all
    then show ?thesis using assms(1) y by (simp add: round_double_pos_eq q)
  next
    case False
    with le have lt: "Ex + 1 \<le> Ey" by simp
    then have ey: "Ey = flog2 y" "- 1022 \<le> flog2 y"
      by (auto simp: Ex_def Ey_def max_def split: if_splits)
    have "round_double x \<le> 2 powi (Ex + 1)"
      using round_double_upper [OF assms(1)] by (simp add: Ex_def)
    also have "\<dots> \<le> 2 powi Ey" using lt by (intro power_int_increasing) simp_all
    also have "\<dots> \<le> round_double y"
      using round_double_lower [OF y ey(2)] by (simp add: ey(1))
    finally show ?thesis .
  qed
qed

lemma round_double_mono:
  assumes "x \<le> y"
  shows "round_double x \<le> round_double y"
proof (cases "0 < x")
  case True
  then show ?thesis using assms by (rule round_double_mono_pos)
next
  case nx: False
  show ?thesis
  proof (cases "0 \<le> y")
    case True
    have "round_double x = - round_double (- x)" using round_double_minus [of "- x"] by simp
    moreover have "0 \<le> round_double (- x)" using nx by (intro round_double_nonneg) simp
    moreover have "0 \<le> round_double y" using True by (rule round_double_nonneg)
    ultimately show ?thesis by simp
  next
    case False
    then have "0 < - y" "- y \<le> - x" using assms by simp_all
    then have "round_double (- y) \<le> round_double (- x)" by (rule round_double_mono_pos)
    then show ?thesis by (simp add: round_double_minus)
  qed
qed

lemma round_double_exact:
  assumes "0 < x" and "x / ulp x = of_int n"
  shows "round_double x = x"
proof -
  have "round_double x = x / ulp x * ulp x"
    using assms by (simp add: round_double_pos_eq)
  then show ?thesis by simp
qed

lemma round_double_of_int_pos:
  assumes "0 < n" and "n \<le> 2 ^ 53"
  shows "round_double (of_int n) = of_int n"
proof -
  define e where "e = flog2 (of_int n)"
  have x: "(0::rat) < of_int n" using assms by simp
  have "(2::rat) powi 0 \<le> of_int n" using assms by simp
  from flog2_ge [OF x this] have e0: "0 \<le> e" by (simp add: e_def)
  then have q: "ulp (of_int n) = 2 powi (e - 52)"
    using x by (simp add: ulp_def e_def max_def)
  have lo: "2 powi e \<le> (of_int n :: rat)" using flog2_bounds(1) [OF x] by (simp add: e_def)
  show ?thesis
  proof (cases "e \<le> 52")
    case True
    have "- (e - 52) = 52 - e" by simp
    then have "1 / (2::rat) powi (e - 52) = 2 powi (52 - e)"
      using power_int_minus_divide [of "2::rat" "e - 52"] by simp
    moreover have "(2::rat) powi (52 - e) = of_int (2 ^ nat (52 - e))"
      using True by (simp add: power_int_nonneg_exp)
    ultimately have "1 / (2::rat) powi (e - 52) = of_int (2 ^ nat (52 - e))" by simp
    then have "of_int n * (1 / (2::rat) powi (e - 52)) = of_int n * of_int (2 ^ nat (52 - e))"
      by simp
    then have "(of_int n :: rat) / ulp (of_int n) = of_int (n * 2 ^ nat (52 - e))"
      by (simp add: q)
    with x show ?thesis by (rule round_double_exact)
  next
    case False
    then have "53 \<le> e" by simp
    then have "(2::rat) powi 53 \<le> 2 powi e" by (intro power_int_increasing) simp_all
    with lo have "(2::rat) ^ 53 \<le> of_int n" by simp
    then have "(of_int (2 ^ 53) :: rat) \<le> of_int n" by simp
    then have "2 ^ 53 \<le> n" by (simp only: of_int_le_iff)
    with assms have n: "n = 2 ^ 53" by simp
    have "(of_int n :: rat) < 2 powi (53 + 1)" by (simp add: n)
    from flog2_le [OF x this] \<open>53 \<le> e\<close> have "e = 53" by (simp add: e_def)
    with q have u: "ulp (of_int n) = 2" by simp
    have "(of_int n :: rat) / ulp (of_int n) = of_int (2 ^ 52)"
      unfolding u by (simp add: n)
    with x show ?thesis by (rule round_double_exact)
  qed
qed

lemma round_double_of_int:
  assumes "\<bar>n\<bar> \<le> 2 ^ 53"
  shows "round_double (of_int n) = of_int n"
proof (cases n "0::int" rule: linorder_cases)
  case less
  then have "round_double (of_int (- n)) = of_int (- n)"
    using assms by (intro round_double_of_int_pos) simp_all
  then show ?thesis using round_double_minus [of "of_int n"] by simp
next
  case equal
  then show ?thesis by simp
next
  case greater
  then show ?thesis using assms by (intro round_double_of_int_pos) simp_all
qed

lemma round_double_rel_lower:
  assumes "0 < x" and "- 1022 \<le> flog2 x"
  shows "x * (1 - 1 / 2 ^ 53) \<le> round_double x"
proof -
  have q: "ulp x = 2 powi (flog2 x - 52)" using assms by (simp add: ulp_def max_def)
  note p = powi2_shift_52 [of "flog2 x"]
  have "2 ^ 52 * ulp x \<le> x" using flog2_bounds(1) [OF assms(1)] by (simp add: q p)
  then have u: "ulp x / 2 \<le> x / 2 ^ 53" by simp
  have "x / ulp x - 1 / 2 \<le> of_int (round_half_even (x / ulp x))"
    by (rule round_half_even_lower)
  then have "(x / ulp x - 1 / 2) * ulp x \<le> of_int (round_half_even (x / ulp x)) * ulp x"
    by (intro mult_right_mono) simp_all
  then have "x - ulp x / 2 \<le> round_double x"
    using assms(1) by (simp add: round_double_pos_eq left_diff_distrib)
  with u show ?thesis by (simp add: right_diff_distrib)
qed

subsection \<open>The rounding on examples\<close>

text \<open>
  \<^verbatim>\<open>0.3\<close> is the double nearest to three tenths, and \<^verbatim>\<open>int(30 * 0.3)\<close> is 9, the
  product being rounded up to 9; a clip of 3950 frames at 30 frames per second has the
  window \<^verbatim>\<open>int(3950 / 30 * 30) = 3949\<close>; \<^verbatim>\<open>1 / 49 * 49\<close> is the double below 1.
\<close>

lemma round_double_three_tenths:
  "round_double (3 / 10) = 5404319552844595 / 18014398509481984"
  by code_simp

lemma start_frame_of_three_tenths:
  "int_float (float_mul (float_of_int 30) (round_double (3 / 10))) = 9"
  by code_simp

lemma window_of_3950_frames:
  "original_frame_length 30 0 (int_truediv 3950 30) = 3949"
  by code_simp

lemma one_by_49_times_49:
  "float_mul (int_truediv 1 49) (float_of_int 49) = 1 - 1 / 2 ^ 53"
  by code_simp

subsection \<open>The loop returns\<close>

text \<open>
  One unfolding of the loop for each outcome of the read, then its totality under a positive
  cap, by induction on the number of frames that may still be added.
\<close>

lemma frame_loop_read_none:
  assumes "read vc (set_pos_frames vc (int_float curr_frame) s) = (None, s2)"
  shows "frame_loop vc ftt cap end_frame step s curr_frame images frames_added = Some (images, frames_added, s2)"
  using assms by (subst frame_loop.simps) (simp add: Let_def)

lemma frame_loop_read_some:
  assumes "read vc (set_pos_frames vc (int_float curr_frame) s) = (Some frame, s2)"
  shows "frame_loop vc ftt cap end_frame step s curr_frame images frames_added =
           (if 0 < cap \<and> cap \<le> frames_added + 1 then Some (images @ [ftt frame], frames_added + 1, s2)
            else if end_frame \<le> curr_frame then Some (images @ [ftt frame], frames_added + 1, s2)
            else frame_loop vc ftt cap end_frame step s2 (float_add curr_frame (float_of_int step))
                   (images @ [ftt frame]) (frames_added + 1))"
  using assms by (subst frame_loop.simps) (simp add: Let_def)

lemma frame_loop_returns:
  assumes "0 < cap" and "frames_added < cap"
  shows "\<exists>imgs n s'.
           frame_loop vc ftt cap end_frame step s curr_frame images frames_added = Some (imgs, n, s')
           \<and> frames_added \<le> n \<and> n \<le> cap
           \<and> int (length imgs) = int (length images) + (n - frames_added)
           \<and> (n = frames_added) = (fst (read vc (set_pos_frames vc (int_float curr_frame) s)) = None)"
  using assms
proof (induction "nat (cap - frames_added)" arbitrary: s curr_frame images frames_added)
  case 0
  then show ?case by simp
next
  case (Suc k)
  obtain r s2 where rd: "read vc (set_pos_frames vc (int_float curr_frame) s) = (r, s2)"
    by (cases "read vc (set_pos_frames vc (int_float curr_frame) s)")
  show ?case
  proof (cases r)
    case None
    with rd Suc.prems show ?thesis
      by (simp add: frame_loop_read_none)
  next
    case (Some frame)
    note step_eq = frame_loop_read_some [OF rd [unfolded Some], of ftt cap end_frame step images frames_added]
    show ?thesis
    proof (cases "cap \<le> frames_added + 1 \<or> end_frame \<le> curr_frame")
      case True
      with Suc.prems rd Some show ?thesis
        by (auto simp: step_eq)
    next
      case False
      then have lt: "frames_added + 1 < cap" and go: "\<not> end_frame \<le> curr_frame" by auto
      have k: "k = nat (cap - (frames_added + 1))" using Suc.hyps(2) by linarith
      from Suc.hyps(1) [OF k \<open>0 < cap\<close> lt, of s2 "float_add curr_frame (float_of_int step)" "images @ [ftt frame]"]
      obtain imgs n s' where
        res: "frame_loop vc ftt cap end_frame step s2 (float_add curr_frame (float_of_int step)) (images @ [ftt frame])
                (frames_added + 1) = Some (imgs, n, s')"
        and bounds: "frames_added + 1 \<le> n" "n \<le> cap"
        and len: "int (length imgs) = int (length (images @ [ftt frame])) + (n - (frames_added + 1))"
        by blast
      from lt go res have "frame_loop vc ftt cap end_frame step s curr_frame images frames_added = Some (imgs, n, s')"
        by (simp add: step_eq)
      with bounds len rd Some show ?thesis by simp
    qed
  qed
qed

subsection \<open>The plan and the returned tuple\<close>

lemma effective_cap_pos: "0 < effective_cap frame_load_cap"
  by (simp add: effective_cap_def)

lemma sampling_plan_Inl:
  "effective_end_sec fps frame_count end_sec = Inl e \<Longrightarrow>
   sampling_plan fps frame_count start_sec end_sec frame_load_cap max_fps = Inl e"
  by (simp add: sampling_plan_def)

lemma sampling_plan_Inr:
  assumes "effective_end_sec fps frame_count end_sec = Inr e"
  shows "sampling_plan fps frame_count start_sec end_sec frame_load_cap max_fps =
           Inr \<lparr> plan_frame_load_cap = effective_cap frame_load_cap,
                 plan_end_sec = e,
                 plan_original_frame_length = original_frame_length fps start_sec e,
                 plan_step = fst (clamp_max_fps max_fps
                    (initial_step (original_frame_length fps start_sec e) (effective_cap frame_load_cap))
                    (fps div initial_step (original_frame_length fps start_sec e) (effective_cap frame_load_cap))),
                 plan_new_fps = fst (snd (clamp_max_fps max_fps
                    (initial_step (original_frame_length fps start_sec e) (effective_cap frame_load_cap))
                    (fps div initial_step (original_frame_length fps start_sec e) (effective_cap frame_load_cap)))),
                 plan_start_frame = float_mul (float_of_int fps) start_sec,
                 plan_end_frame = float_mul (float_of_int fps) e,
                 plan_warned = snd (snd (clamp_max_fps max_fps
                    (initial_step (original_frame_length fps start_sec e) (effective_cap frame_load_cap))
                    (fps div initial_step (original_frame_length fps start_sec e) (effective_cap frame_load_cap)))) \<rparr>"
  using assms by (simp add: sampling_plan_def Let_def)

lemma sampling_plan_cases:
  obtains (raised) e where "effective_end_sec fps frame_count end_sec = Inl e"
      and "sampling_plan fps frame_count start_sec end_sec frame_load_cap max_fps = Inl e"
  | (planned) e p where "effective_end_sec fps frame_count end_sec = Inr e"
      and "sampling_plan fps frame_count start_sec end_sec frame_load_cap max_fps = Inr p"
      and "plan_frame_load_cap p = effective_cap frame_load_cap"
      and "plan_start_frame p = float_mul (float_of_int fps) start_sec"
      and "plan_end_frame p = float_mul (float_of_int fps) e"
proof (cases "effective_end_sec fps frame_count end_sec")
  case (Inl e)
  then show ?thesis using raised sampling_plan_Inl by blast
next
  case (Inr e)
  show ?thesis
    by (rule planned [OF Inr sampling_plan_Inr [OF Inr]]) simp_all
qed

text \<open>With its positive cap the loop of \<^verbatim>\<open>process_video_cap\<close> always returns.\<close>

lemma process_video_cap_returns:
  "\<exists>r. process_video_cap vc ftt s start_sec end_sec frame_load_cap max_fps = Some r"
proof (cases rule: sampling_plan_cases [of "get_fps vc s" "get_frame_count vc s" end_sec start_sec frame_load_cap max_fps])
  case (raised e)
  then show ?thesis by (simp add: process_video_cap_def)
next
  case (planned e p)
  from frame_loop_returns [of "effective_cap frame_load_cap" 0 vc ftt "plan_end_frame p" "plan_step p" s
      "plan_start_frame p" "[]"] effective_cap_pos [of frame_load_cap]
  obtain imgs n s' where "frame_loop vc ftt (effective_cap frame_load_cap) (plan_end_frame p) (plan_step p) s
      (plan_start_frame p) [] 0 = Some (imgs, n, s')" by blast
  with planned show ?thesis by (simp add: process_video_cap_def)
qed

lemma process_video_cap_Inr:
  assumes "process_video_cap vc ftt s start_sec end_sec frame_load_cap max_fps = Some (Inr (images, n, fps, w, h))"
  shows "\<exists>e p. effective_end_sec (get_fps vc s) (get_frame_count vc s) end_sec = Inr e
           \<and> sampling_plan (get_fps vc s) (get_frame_count vc s) start_sec end_sec frame_load_cap max_fps = Inr p
           \<and> fps = plan_new_fps p \<and> w = get_frame_width vc s \<and> h = get_frame_height vc s
           \<and> int (length images) = n \<and> n \<le> effective_cap frame_load_cap
           \<and> (n = 0) = (fst (read vc (set_pos_frames vc (int_float (float_mul (float_of_int (get_fps vc s)) start_sec)) s)) = None)"
proof (cases rule: sampling_plan_cases [of "get_fps vc s" "get_frame_count vc s" end_sec start_sec frame_load_cap max_fps])
  case (raised e)
  with assms show ?thesis by (simp add: process_video_cap_def)
next
  case (planned e p)
  from frame_loop_returns [of "effective_cap frame_load_cap" 0 vc ftt "plan_end_frame p" "plan_step p" s
      "plan_start_frame p" "[]"] effective_cap_pos [of frame_load_cap]
  obtain imgs m s' where loop: "frame_loop vc ftt (effective_cap frame_load_cap) (plan_end_frame p) (plan_step p) s
      (plan_start_frame p) [] 0 = Some (imgs, m, s')"
    and m: "0 \<le> m" "m \<le> effective_cap frame_load_cap" "int (length imgs) = m"
      "(m = 0) = (fst (read vc (set_pos_frames vc (int_float (plan_start_frame p)) s)) = None)"
    by auto
  from assms planned loop have "images = imgs" "n = m" "fps = plan_new_fps p"
      "w = get_frame_width vc s" "h = get_frame_height vc s"
    by (simp_all add: process_video_cap_def)
  with planned m show ?thesis by simp
qed

lemma process_video_cap_first_read_none:
  assumes "effective_end_sec (get_fps vc s) (get_frame_count vc s) end_sec = Inr e"
    and "fst (read vc (set_pos_frames vc (int_float (float_mul (float_of_int (get_fps vc s)) start_sec)) s)) = None"
  shows "\<exists>fps. process_video_cap vc ftt s start_sec end_sec frame_load_cap max_fps =
           Some (Inr ([], 0, fps, get_frame_width vc s, get_frame_height vc s))"
proof -
  obtain s2 where "read vc (set_pos_frames vc (int_float (float_mul (float_of_int (get_fps vc s)) start_sec)) s) = (None, s2)"
    using assms(2) by (cases "read vc (set_pos_frames vc (int_float (float_mul (float_of_int (get_fps vc s)) start_sec)) s)") simp
  then show ?thesis
    by (simp add: process_video_cap_def sampling_plan_Inr [OF assms(1)] frame_loop_read_none)
qed

subsection \<open>The sampling plan of a ten-second clip\<close>

text \<open>
  Claim C1. For a source of 30 frames per second and 300 frames, the request
  \<^verbatim>\<open>start_sec=0, end_sec=0, frame_load_cap=50, max_fps=-1\<close> gives a window of 300 frames,
  the stride 6 and the output rate 5. Whenever the plan is made with \<^verbatim>\<open>max_fps=-1\<close>, the
  window is \<^verbatim>\<open>int((end_sec - start_sec) * fps)\<close> for the effective end time, the stride is
  \<^verbatim>\<open>max(window // cap, 1)\<close> for the effective cap, and the output rate is
  \<^verbatim>\<open>fps // step\<close>.
\<close>

theorem plan_of_ten_second_clip:
  "sampling_plan 30 300 0 0 50 (Some (- 1)) = Inr clip_plan
   \<and> plan_original_frame_length clip_plan = 300 \<and> plan_step clip_plan = 6 \<and> plan_new_fps clip_plan = 5
   \<and> (sampling_plan fps frame_count start_sec end_sec frame_load_cap (Some (- 1)) = Inr p \<longrightarrow>
        (\<exists>e. effective_end_sec fps frame_count end_sec = Inr e
           \<and> plan_original_frame_length p = int_float (float_mul (float_sub e start_sec) (float_of_int fps))
           \<and> plan_step p = max (plan_original_frame_length p div effective_cap frame_load_cap) 1
           \<and> plan_new_fps p = fps div plan_step p))"
proof -
  have example: "sampling_plan 30 300 0 0 50 (Some (- 1)) = Inr clip_plan"
    by code_simp
  have general: "\<exists>e. effective_end_sec fps frame_count end_sec = Inr e
           \<and> plan_original_frame_length p = int_float (float_mul (float_sub e start_sec) (float_of_int fps))
           \<and> plan_step p = max (plan_original_frame_length p div effective_cap frame_load_cap) 1
           \<and> plan_new_fps p = fps div plan_step p"
    if p: "sampling_plan fps frame_count start_sec end_sec frame_load_cap (Some (- 1)) = Inr p"
  proof (cases rule: sampling_plan_cases [of fps frame_count end_sec start_sec frame_load_cap "Some (- 1)"])
    case (raised e)
    with p show ?thesis by simp
  next
    case (planned e q)
    with p have "q = p" by simp
    with sampling_plan_Inr [OF planned(1), of start_sec frame_load_cap "Some (- 1)"] planned(2)
    have "p = \<lparr> plan_frame_load_cap = effective_cap frame_load_cap,
                 plan_end_sec = e,
                 plan_original_frame_length = original_frame_length fps start_sec e,
                 plan_step = initial_step (original_frame_length fps start_sec e) (effective_cap frame_load_cap),
                 plan_new_fps = fps div initial_step (original_frame_length fps start_sec e) (effective_cap frame_load_cap),
                 plan_start_frame = float_mul (float_of_int fps) start_sec,
                 plan_end_frame = float_mul (float_of_int fps) e,
                 plan_warned = False \<rparr>"
      by (simp add: clamp_max_fps_def)
    with planned(1) show ?thesis
      by (simp add: original_frame_length_def initial_step_def Let_def)
  qed
  from example general show ?thesis by (simp add: clip_plan_def)
qed

text \<open>The general part at the request of the claim.\<close>

theorem plan_of_ten_second_clip_witness:
  "sampling_plan 30 300 0 0 50 (Some (- 1)) = Inr clip_plan
   \<and> (\<exists>e. effective_end_sec 30 300 0 = Inr e
         \<and> plan_original_frame_length clip_plan = int_float (float_mul (float_sub e 0) (float_of_int 30))
         \<and> plan_step clip_plan = max (plan_original_frame_length clip_plan div effective_cap 50) 1
         \<and> plan_new_fps clip_plan = 30 div plan_step clip_plan)"
proof -
  have planned: "sampling_plan 30 300 0 0 50 (Some (- 1)) = Inr clip_plan"
    by code_simp
  from plan_of_ten_second_clip [of 30 300 0 0 50 clip_plan] planned show ?thesis
    by blast
qed

subsection \<open>Arithmetic of the stride and the rate\<close>

lemma initial_step_ge_1: "1 \<le> initial_step frame_length cap"
  by (simp add: initial_step_def)

lemma int_float_ge:
  assumes "of_int z \<le> x" and "0 \<le> x"
  shows "z \<le> int_float x"
  using assms by (simp add: int_float_def le_floor_iff)

text \<open>
  The stride of the clamp stays positive for every \<^verbatim>\<open>max_fps\<close> below \<open>2 ^ 53\<close>: the
  quotient \<^verbatim>\<open>step / max_fps\<close> is rounded down by at most one part in \<open>2 ^ 53\<close>, and
  \<^verbatim>\<open>new_fps\<close> is at least \<^verbatim>\<open>max_fps + 1\<close>.
\<close>

lemma clamped_step_ge_1:
  assumes "1 \<le> step" and "0 < m" and "m < new_fps" and "m < 2 ^ 53"
  shows "1 \<le> int_float (float_mul (int_truediv step m) (float_of_int new_fps))"
proof -
  define M :: rat where "M = of_int m"
  have M: "0 < M" "M + 1 \<le> 2 ^ 53"
  proof -
    show "0 < M" using assms(2) by (simp add: M_def)
    have "m + 1 \<le> 2 ^ 53" using assms(4) by simp
    then have "(of_int (m + 1) :: rat) \<le> of_int (2 ^ 53)" by (simp only: of_int_le_iff)
    then show "M + 1 \<le> 2 ^ 53" by (simp add: M_def)
  qed
  have y: "M + 1 \<le> float_of_int new_fps"
  proof -
    have "\<bar>m + 1\<bar> \<le> 2 ^ 53" using assms(2,4) by simp
    then have "round_double (of_int (m + 1)) = of_int (m + 1)" by (rule round_double_of_int)
    moreover have "(of_int (m + 1) :: rat) \<le> of_int new_fps" using assms(3) by simp
    then have "round_double (of_int (m + 1)) \<le> round_double (of_int new_fps)"
      by (rule round_double_mono)
    ultimately show ?thesis by (simp add: float_of_int_def M_def)
  qed
  have x: "1 / M * (1 - 1 / 2 ^ 53) \<le> int_truediv step m"
  proof -
    have pos: "0 < 1 / M" using M(1) by simp
    have "M \<le> 2 ^ 53" using M(2) by simp
    then have "1 / 2 ^ 53 \<le> 1 / M" using M(1) by (intro divide_left_mono) simp_all
    moreover have "(2::rat) powi (- 53) = 1 / 2 ^ 53"
      using power_int_minus_divide [of "2::rat" 53] by simp
    ultimately have "2 powi (- 53) \<le> 1 / M" by simp
    from flog2_ge [OF pos this] have "- 1022 \<le> flog2 (1 / M)" by simp
    from round_double_rel_lower [OF pos this]
    have "1 / M * (1 - 1 / 2 ^ 53) \<le> round_double (1 / M)" .
    also have "1 / M \<le> of_int step / M"
      using assms(1) M(1) by (intro divide_right_mono) simp_all
    then have "round_double (1 / M) \<le> round_double (of_int step / M)"
      by (rule round_double_mono)
    finally show ?thesis by (simp add: int_truediv_def M_def)
  qed
  have "1 \<le> 1 / M * (1 - 1 / 2 ^ 53) * (M + 1)"
  proof -
    have "M * 2 ^ 53 \<le> (2 ^ 53 - 1) * (M + 1)" using M(2) by (simp add: algebra_simps)
    then have "M \<le> (2 ^ 53 - 1) * (M + 1) / 2 ^ 53" by (simp add: pos_le_divide_eq)
    then have "1 \<le> (2 ^ 53 - 1) * (M + 1) / 2 ^ 53 / M"
      using M(1) by (simp add: pos_le_divide_eq)
    also have "(2 ^ 53 - 1) * (M + 1) / 2 ^ 53 / M = 1 / M * (1 - 1 / 2 ^ 53) * (M + 1)"
      by (simp add: field_simps)
    finally show ?thesis .
  qed
  also have "\<dots> \<le> int_truediv step m * (M + 1)"
    using x M(1) by (intro mult_right_mono) simp_all
  also have "\<dots> \<le> int_truediv step m * float_of_int new_fps"
  proof (rule mult_left_mono [OF y])
    show "0 \<le> int_truediv step m"
      unfolding int_truediv_def using assms(1,2) by (intro round_double_nonneg) simp
  qed
  finally have "round_double (of_int 1) \<le> round_double (int_truediv step m * float_of_int new_fps)"
    by (intro round_double_mono) simp
  moreover have "round_double (of_int 1) = of_int 1" by (rule round_double_of_int) simp
  ultimately have one: "1 \<le> float_mul (int_truediv step m) (float_of_int new_fps)"
    by (simp add: float_mul_def)
  show ?thesis
    by (rule int_float_ge) (use one in simp_all)
qed

text \<open>
  Beyond that the rounding can take the stride to 0: for \<^verbatim>\<open>max_fps = 49 * 2 ** 48\<close> and a
  rate one above it, \<^verbatim>\<open>float(new_fps)\<close> is \<^verbatim>\<open>max_fps\<close> and \<^verbatim>\<open>1 / max_fps * new_fps\<close>
  is the double below 1.
\<close>

lemma clamped_step_0_example:
  "fst (clamp_max_fps (Some (49 * 2 ^ 48)) 1 (49 * 2 ^ 48 + 1)) = 0"
  by code_simp

text \<open>
  So a source of \<^verbatim>\<open>49 * 2 ** 48 + 1\<close> frames per second, with \<^verbatim>\<open>end_sec = 2 ** -34\<close>, no cap
  and \<^verbatim>\<open>max_fps = 49 * 2 ** 48\<close>, is planned with the stride 0.
\<close>

lemma plan_step_0_example:
  "map_sum id plan_step (sampling_plan (49 * 2 ^ 48 + 1) 0 0 (1 / 2 ^ 34) 0 (Some (49 * 2 ^ 48))) = Inr 0"
  by code_simp

lemma lossy_adjustment_never: "\<not> lossy_adjustment step new_fps"
  by (simp add: lossy_adjustment_def)

lemma clamp_max_fps_no_warning: "\<not> snd (snd (clamp_max_fps max_fps step new_fps))"
  by (simp add: clamp_max_fps_def lossy_adjustment_never split: option.split)

subsection \<open>The warning of the clamp\<close>

text \<open>
  Claim C9. In the branch of the \<^verbatim>\<open>max_fps\<close> clamp the condition of the warning,
  \<^verbatim>\<open>(step * new_fps) % new_fps != 0\<close>, is false for every integer \<^verbatim>\<open>step\<close> and every
  \<^verbatim>\<open>new_fps >= 1\<close>: the clamp never reports a warning, and no plan is made with one.
\<close>

theorem lossy_warning_unreachable:
  "(1 \<le> new_fps \<longrightarrow> \<not> lossy_adjustment step new_fps)
   \<and> \<not> snd (snd (clamp_max_fps max_fps step new_fps))
   \<and> (sampling_plan fps frame_count start_sec end_sec frame_load_cap max_fps = Inr p \<longrightarrow> \<not> plan_warned p)"
proof -
  have "\<not> plan_warned p"
    if p: "sampling_plan fps frame_count start_sec end_sec frame_load_cap max_fps = Inr p"
  proof (cases rule: sampling_plan_cases [of fps frame_count end_sec start_sec frame_load_cap max_fps])
    case (raised e)
    with p show ?thesis by simp
  next
    case (planned e q)
    with p sampling_plan_Inr [OF planned(1), of start_sec frame_load_cap max_fps] show ?thesis
      by (auto simp: clamp_max_fps_no_warning)
  qed
  then show ?thesis
    by (simp add: lossy_adjustment_never clamp_max_fps_no_warning)
qed

text \<open>The clamp is entered for \<^verbatim>\<open>max_fps=3\<close> on the ten-second clip, with the rate 5 before it.\<close>

theorem lossy_warning_unreachable_witness:
  "(1::int) \<le> 5 \<and> \<not> lossy_adjustment 6 5
   \<and> sampling_plan 30 300 0 0 50 (Some 3) = Inr clamped_clip_plan \<and> \<not> plan_warned clamped_clip_plan"
proof -
  have planned: "sampling_plan 30 300 0 0 50 (Some 3) = Inr clamped_clip_plan"
    by code_simp
  from lossy_warning_unreachable [of 5 6 "Some 3" 30 300 0 0 50 clamped_clip_plan] planned
  show ?thesis by simp
qed

subsection \<open>Bounds of the stride and the output rate\<close>

text \<open>
  Claim C3 states that for \<^verbatim>\<open>fps >= 1\<close> the plan has \<^verbatim>\<open>step >= 1\<close>,
  \<^verbatim>\<open>output_fps >= 1\<close> and \<^verbatim>\<open>output_fps <= fps\<close>. The middle part fails: a clip of 1000
  seconds at 30 frames per second, capped at 50 frames, has the stride 600 and the output
  rate \<^verbatim>\<open>30 // 600 = 0\<close>.
\<close>

theorem plan_rate_zero:
  "(1::int) \<le> 30 \<and> sampling_plan 30 30000 0 0 50 (Some (- 1)) = Inr long_clip_plan
   \<and> \<not> 1 \<le> plan_new_fps long_clip_plan"
  by code_simp

text \<open>
  Claim C3, amended. For \<^verbatim>\<open>fps >= 1\<close> and a \<^verbatim>\<open>max_fps\<close> that is \<^verbatim>\<open>None\<close> or below
  \<open>2 ^ 53\<close> (the node admits at most 30), the planner returns a plan with \<^verbatim>\<open>step >= 1\<close> and
  \<^verbatim>\<open>0 <= output_fps <= fps\<close>; the output rate is at least 1 exactly when the stride
  before the clamp, \<^verbatim>\<open>max(window // cap, 1)\<close>, is at most \<^verbatim>\<open>fps\<close>.
\<close>

theorem plan_rate_bounds:
  assumes "1 \<le> fps"
    and "case max_fps of None \<Rightarrow> True | Some m \<Rightarrow> m < 2 ^ 53"
  shows "\<exists>p. sampling_plan fps frame_count start_sec end_sec frame_load_cap max_fps = Inr p
           \<and> 1 \<le> plan_step p \<and> 0 \<le> plan_new_fps p \<and> plan_new_fps p \<le> fps
           \<and> (1 \<le> plan_new_fps p) = (initial_step (plan_original_frame_length p) (plan_frame_load_cap p) \<le> fps)"
proof -
  define e where "e = (if end_sec = 0 then int_truediv frame_count fps else end_sec)"
  have e: "effective_end_sec fps frame_count end_sec = Inr e"
    using assms(1) by (simp add: effective_end_sec_def e_def)
  define st where "st = initial_step (original_frame_length fps start_sec e) (effective_cap frame_load_cap)"
  define nf where "nf = fps div st"
  have st: "1 \<le> st" unfolding st_def by (rule initial_step_ge_1)
  have nf0: "0 \<le> nf" unfolding nf_def using assms(1) st by (simp add: pos_imp_zdiv_nonneg_iff)
  have nf_le: "nf \<le> fps" unfolding nf_def using assms(1) st
    by (metis div_by_1 zdiv_mono2 zero_less_one order_trans zero_le_one)
  have nf1: "(1 \<le> nf) = (st \<le> fps)"
  proof
    assume "1 \<le> nf"
    show "st \<le> fps"
    proof (rule ccontr)
      assume "\<not> st \<le> fps"
      with assms(1) have "fps div st = 0" by (simp add: div_pos_pos_trivial)
      with \<open>1 \<le> nf\<close> show False by (simp add: nf_def)
    qed
  next
    assume "st \<le> fps"
    with st have "st div st \<le> fps div st" by (intro zdiv_mono1) simp_all
    with st show "1 \<le> nf" by (simp add: nf_def)
  qed
  let ?c = "clamp_max_fps max_fps st nf"
  have clamp: "1 \<le> fst ?c \<and> 0 \<le> fst (snd ?c) \<and> fst (snd ?c) \<le> fps \<and> (1 \<le> fst (snd ?c)) = (st \<le> fps)"
  proof (cases max_fps)
    case None
    with st nf0 nf_le nf1 show ?thesis by (simp add: clamp_max_fps_def)
  next
    case (Some m)
    show ?thesis
    proof (cases "m \<noteq> 0 \<and> 0 < m \<and> m < nf")
      case True
      moreover from assms(2) Some have "m < 2 ^ 53" by simp
      ultimately have "1 \<le> int_float (float_mul (int_truediv st m) (float_of_int nf))"
        using st by (intro clamped_step_ge_1) simp_all
      moreover from True nf1 have "st \<le> fps" by linarith
      ultimately show ?thesis
        using True Some nf_le by (simp add: clamp_max_fps_def)
    next
      case False
      then have "clamp_max_fps max_fps st nf = (st, nf, False)"
        using Some by (auto simp: clamp_max_fps_def)
      with st nf0 nf_le nf1 show ?thesis by simp
    qed
  qed
  show ?thesis
    using clamp by (simp add: sampling_plan_Inr [OF e] st_def nf_def)
qed

theorem plan_rate_bounds_witness:
  "(1::int) \<le> 30
   \<and> (case Some (- 1 :: int) of None \<Rightarrow> True | Some m \<Rightarrow> m < 2 ^ 53)
   \<and> (\<exists>p. sampling_plan 30 30000 0 0 50 (Some (- 1)) = Inr p
           \<and> 1 \<le> plan_step p \<and> 0 \<le> plan_new_fps p \<and> plan_new_fps p \<le> 30
           \<and> (1 \<le> plan_new_fps p) = (initial_step (plan_original_frame_length p) (plan_frame_load_cap p) \<le> 30))"
proof -
  have f: "(1::int) \<le> 30"
    and m: "case Some (- 1 :: int) of None \<Rightarrow> True | Some m \<Rightarrow> m < 2 ^ 53"
    by simp_all
  from plan_rate_bounds [OF f m, of 30000 0 0 50] f m show ?thesis by blast
qed

subsection \<open>The clamp of the output rate\<close>

text \<open>
  Claim C4. Let \<^verbatim>\<open>step\<close> and \<^verbatim>\<open>new_fps\<close> be the stride and the rate before the clamp.
  Whenever \<^verbatim>\<open>0 < max_fps < new_fps\<close>, the planner returns a plan, raising nothing, whose
  stride is \<^verbatim>\<open>int(step / max_fps * new_fps)\<close>, the quotient and the product rounded as the
  doubles round them, and whose output rate is \<^verbatim>\<open>max_fps\<close>. For the ten-second clip with
  \<^verbatim>\<open>max_fps=3\<close> the output rate is 3.
\<close>

theorem max_fps_clamp:
  assumes "e = (if end_sec = 0 then int_truediv frame_count fps else end_sec)"
    and "step0 = initial_step (original_frame_length fps start_sec e) (effective_cap frame_load_cap)"
    and "new_fps0 = fps div step0"
    and "0 < m" and "m < new_fps0"
  shows "(\<exists>p. sampling_plan fps frame_count start_sec end_sec frame_load_cap (Some m) = Inr p
           \<and> plan_step p = int_float (float_mul (int_truediv step0 m) (float_of_int new_fps0))
           \<and> plan_new_fps p = m)
       \<and> sampling_plan 30 300 0 0 50 (Some 3) = Inr clamped_clip_plan
       \<and> plan_new_fps clamped_clip_plan = 3"
proof (intro conjI)
  from assms have "fps \<noteq> 0" by auto
  with assms(1) have e: "effective_end_sec fps frame_count end_sec = Inr e"
    by (simp add: effective_end_sec_def)
  from assms show "\<exists>p. sampling_plan fps frame_count start_sec end_sec frame_load_cap (Some m) = Inr p
           \<and> plan_step p = int_float (float_mul (int_truediv step0 m) (float_of_int new_fps0))
           \<and> plan_new_fps p = m"
    by (simp add: sampling_plan_Inr [OF e] clamp_max_fps_def)
  show "sampling_plan 30 300 0 0 50 (Some 3) = Inr clamped_clip_plan"
    by code_simp
  show "plan_new_fps clamped_clip_plan = 3"
    by (simp add: clamped_clip_plan_def)
qed

text \<open>
  A clip of 165 frames at 165 frames per second with \<^verbatim>\<open>max_fps=11\<close>: the stride before the
  clamp is 3, the rate 55, and \<^verbatim>\<open>int(3 / 11 * 55)\<close> is 14, the product being the double
  below 15.
\<close>

theorem max_fps_clamp_witness:
  "(0::int) < 11 \<and> (11::int) < 55
   \<and> sampling_plan 165 165 0 0 50 (Some 11) = Inr short_clip_plan
   \<and> plan_step short_clip_plan = int_float (float_mul (int_truediv 3 11) (float_of_int 55))
   \<and> plan_step short_clip_plan = 14
   \<and> plan_new_fps short_clip_plan = 11"
proof -
  have e: "(1::rat) = (if (0::rat) = 0 then int_truediv 165 165 else 0)" by code_simp
  have s: "(3::int) = initial_step (original_frame_length 165 0 1) (effective_cap 50)"
    by code_simp
  have n: "(55::int) = 165 div 3" by simp
  have m: "(0::int) < 11" "(11::int) < 55" by simp_all
  have p: "sampling_plan 165 165 0 0 50 (Some 11) = Inr short_clip_plan" by code_simp
  have v: "plan_step short_clip_plan = 14" "plan_new_fps short_clip_plan = 11"
    by (simp_all add: short_clip_plan_def)
  from max_fps_clamp [OF e s n m] p have "plan_step short_clip_plan =
      int_float (float_mul (int_truediv 3 11) (float_of_int 55))"
    by auto
  with m p v show ?thesis by simp
qed

subsection \<open>Splitting and reading a size specification\<close>

text \<open>
  A text that \<^verbatim>\<open>int\<close> reads holds only whitespace, digits, underscores and signs, so it
  has no \<^verbatim>\<open>x\<close> and \<^verbatim>\<open>split("x")\<close> leaves it whole.
\<close>

lemma split_on_no_sep: "sep \<notin> set s \<Longrightarrow> split_on sep s = [s]"
  by (induction s) auto

lemma split_on_append:
  "sep \<notin> set a \<Longrightarrow> split_on sep (a @ sep # b) = a # split_on sep b"
  by (induction a) auto

lemma parse_digits_chars:
  "parse_digits s acc = Some v \<Longrightarrow> c \<in> set s \<Longrightarrow> is_digit c \<or> c = CHR ''_''"
  by (induction s acc rule: parse_digits.induct) (auto split: if_splits)

lemma parse_unsigned_chars:
  "parse_unsigned s = Some v \<Longrightarrow> c \<in> set s \<Longrightarrow> is_digit c \<or> c = CHR ''_''"
  by (auto simp: parse_unsigned_def split: list.splits if_splits dest: parse_digits_chars)

lemma strip_chars:
  assumes "c \<in> set s"
  shows "is_space c \<or> c \<in> set (strip s)"
proof -
  have "set s = set (takeWhile is_space s) \<union> set (dropWhile is_space s)"
    by (metis set_append takeWhile_dropWhile_id)
  moreover have "set (dropWhile is_space s) =
      set (takeWhile is_space (rev (dropWhile is_space s))) \<union> set (strip s)"
    unfolding strip_def by (metis set_append set_rev takeWhile_dropWhile_id)
  ultimately show ?thesis
    using assms by (auto dest: set_takeWhileD)
qed

lemma int_str_chars:
  assumes "int_str s = Some v" and "c \<in> set s"
  shows "is_space c \<or> is_digit c \<or> c = CHR ''_'' \<or> c = CHR ''-'' \<or> c = CHR ''+''"
proof (cases "is_space c")
  case True
  then show ?thesis by simp
next
  case False
  with strip_chars [OF assms(2)] have c: "c \<in> set (strip s)" by simp
  then obtain d ds where st: "strip s = d # ds" by (cases "strip s") auto
  show ?thesis
  proof (cases "d = CHR ''-'' \<or> d = CHR ''+''")
    case True
    with assms(1) st obtain u where "parse_unsigned ds = Some u"
      by (auto simp: int_str_def split: if_splits)
    with c st True show ?thesis by (auto dest: parse_unsigned_chars)
  next
    case False
    with assms(1) st have "parse_unsigned (d # ds) = Some v"
      by (auto simp: int_str_def)
    with c st show ?thesis by (auto dest: parse_unsigned_chars)
  qed
qed

lemma int_str_no_x:
  assumes "int_str s = Some v"
  shows "CHR ''x'' \<notin> set s"
proof
  assume "CHR ''x'' \<in> set s"
  from int_str_chars [OF assms this] show False
    by (simp add: is_space_def is_digit_def)
qed

lemma int_str_wildcard: "int_str ''?'' = None"
  by (simp add: int_str_def strip_def is_space_def parse_unsigned_def is_digit_def)

lemma target_size_width_wildcard:
  assumes "int_str hs = Some H" and "src_h \<noteq> 0"
  shows "target_size src_w src_h (''?x'' @ hs) = Inr (((src_w * H) div src_h + 4) AND NOT 7, H)"
proof -
  have "split_on CHR ''x'' (''?x'' @ hs) = [''?'', hs]"
    using split_on_append [of "CHR ''x''" "''?''" hs] split_on_no_sep [OF int_str_no_x [OF assms(1)]]
    by simp
  with assms show ?thesis
    by (simp add: target_size_def)
qed

lemma target_size_height_wildcard:
  assumes "int_str ws = Some W" and "src_w \<noteq> 0"
  shows "target_size src_w src_h (ws @ ''x?'') = Inr (W, ((src_h * W) div src_w + 4) AND NOT 7)"
proof -
  have x: "CHR ''x'' \<notin> set ws" by (rule int_str_no_x [OF assms(1)])
  have sp: "split_on CHR ''x'' (ws @ ''x?'') = [ws, ''?'']"
    using split_on_append [OF x, of "''?''"] by simp
  have "CHR ''x'' \<in> set (ws @ ''x?'')" by simp
  then have nd: "ws @ ''x?'' \<noteq> ''Disabled''" by auto
  from assms(1) have nw: "ws \<noteq> ''?''" using int_str_wildcard by auto
  from sp nd nw assms show ?thesis
    by (simp add: target_size_def)
qed

lemmas int_str_defs = int_str_def strip_def is_space_def parse_unsigned_def is_digit_def digit_val_def

subsection \<open>The target size with a wildcard axis\<close>

text \<open>
  Claim C2. For every source size with \<^verbatim>\<open>src_h > 0\<close> and every specification \<^verbatim>\<open>"?x<H>"\<close>,
  where the text of the height reads as the integer \<open>H\<close>, the target size is
  \<^verbatim>\<open>(((src_w * H) // src_h + 4) & ~7, H)\<close>. Symmetrically, for \<^verbatim>\<open>src_w > 0\<close> and
  \<^verbatim>\<open>"<W>x?"\<close> it is \<^verbatim>\<open>(W, ((src_h * W) // src_w + 4) & ~7)\<close>. The sources 100 by 50
  and 101 by 50 with \<^verbatim>\<open>"?x100"\<close> both resolve to 200 by 100.
\<close>

theorem target_size_wildcard:
  "(int_str hs = Some H \<and> 0 < src_h \<longrightarrow>
      target_size src_w src_h (''?x'' @ hs) = Inr (((src_w * H) div src_h + 4) AND NOT 7, H))
   \<and> (int_str ws = Some W \<and> 0 < src_w \<longrightarrow>
      target_size src_w src_h (ws @ ''x?'') = Inr (W, ((src_h * W) div src_w + 4) AND NOT 7))
   \<and> target_size 100 50 ''?x100'' = Inr (200, 100)
   \<and> target_size 101 50 ''?x100'' = Inr (200, 100)"
proof (intro conjI impI)
  show "target_size src_w src_h (''?x'' @ hs) = Inr (((src_w * H) div src_h + 4) AND NOT 7, H)"
    if "int_str hs = Some H \<and> 0 < src_h"
    using that by (intro target_size_width_wildcard) simp_all
  show "target_size src_w src_h (ws @ ''x?'') = Inr (W, ((src_h * W) div src_w + 4) AND NOT 7)"
    if "int_str ws = Some W \<and> 0 < src_w"
    using that by (intro target_size_height_wildcard) simp_all
  show "target_size 100 50 ''?x100'' = Inr (200, 100)"
    by (simp add: target_size_def int_str_defs)
  show "target_size 101 50 ''?x100'' = Inr (200, 100)"
    by (simp add: target_size_def int_str_defs)
qed

theorem target_size_wildcard_witness:
  "int_str ''100'' = Some 100 \<and> (0::int) < 50
   \<and> target_size 101 50 (''?x'' @ ''100'') = Inr (((101 * 100) div 50 + 4) AND NOT 7, 100)
   \<and> int_str ''512'' = Some 512 \<and> (0::int) < 101
   \<and> target_size 101 50 (''512'' @ ''x?'') = Inr (512, ((50 * 512) div 101 + 4) AND NOT 7)"
proof -
  have h: "int_str ''100'' = Some 100" "int_str ''512'' = Some 512"
    by (simp_all add: int_str_defs)
  from target_size_wildcard [of "''100''" 100 50 101 "''512''" 512] h show ?thesis
    by simp
qed

subsection \<open>The check for an empty batch and the resizing\<close>

lemma keeps_length_mark_batch: "keeps_length mark_batch"
  by (simp add: keeps_length_def mark_batch_def)

lemma resize_stage_length:
  assumes "keeps_length upscale"
    and "resize_stage upscale images width height force_size = Inr (images', width', height', calls)"
  shows "length images' = length images"
  using assms
  by (auto simp: resize_stage_def keeps_length_def split: if_splits sum.splits)

lemma load_video_cv_Inr:
  assumes "load_video_cv vc ftt upscale video start_sec end_sec frame_load_cap max_fps force_size =
             Some (Inr ((images', n, fps, w', h'), calls))"
  shows "\<exists>s images w h. VideoCapture vc video = Some s
           \<and> process_video_cap vc ftt s start_sec end_sec frame_load_cap max_fps = Some (Inr (images, n, fps, w, h))
           \<and> images \<noteq> []
           \<and> resize_stage upscale images w h force_size = Inr (images', w', h', calls)"
  using assms
  by (auto simp: load_video_cv_def split: option.splits sum.splits if_splits prod.splits)

lemma load_video_cv_no_frames:
  assumes "VideoCapture vc video = Some s"
    and "process_video_cap vc ftt s start_sec end_sec frame_load_cap max_fps = Some (Inr ([], n, fps, w, h))"
  shows "load_video_cv vc ftt upscale video start_sec end_sec frame_load_cap max_fps force_size =
           Some (Inl NoFramesGenerated)"
  using assms by (simp add: load_video_cv_def)

lemma load_video_cv_frames:
  assumes "VideoCapture vc video = Some s"
    and "process_video_cap vc ftt s start_sec end_sec frame_load_cap max_fps = Some (Inr (images, n, fps, w, h))"
    and "images \<noteq> []"
    and "resize_stage upscale images w h force_size = Inr (images', w', h', calls)"
  shows "load_video_cv vc ftt upscale video start_sec end_sec frame_load_cap max_fps force_size =
           Some (Inr ((images', n, fps, w', h'), calls))"
  using assms by (simp add: load_video_cv_def)

lemma resize_stage_same_size:
  assumes "force_size = ''Disabled'' \<or> target_size width height force_size = Inr (width, height)"
  shows "resize_stage upscale images width height force_size = Inr (images, width, height, [])"
  using assms by (auto simp: resize_stage_def)

subsection \<open>Resizing that changes nothing\<close>

text \<open>
  Claim C8. With the specification \<^verbatim>\<open>Disabled\<close> the resize stage returns the batch unchanged
  with the width and height of the source, and whenever the resolved target size equals the
  source size it returns the identical batch and makes no resampling call. The same holds of
  the load that hands a non-empty batch to the stage.
\<close>

theorem resize_stage_identity:
  "resize_stage upscale images width height ''Disabled'' = Inr (images, width, height, [])
   \<and> (target_size width height force_size = Inr (width, height) \<longrightarrow>
        resize_stage upscale images width height force_size = Inr (images, width, height, []))
   \<and> (VideoCapture vc video = Some s
        \<and> process_video_cap vc ftt s start_sec end_sec frame_load_cap max_fps = Some (Inr (batch, n, fps, w, h))
        \<and> batch \<noteq> []
        \<and> (spec = ''Disabled'' \<or> target_size w h spec = Inr (w, h)) \<longrightarrow>
        load_video_cv vc ftt upscale video start_sec end_sec frame_load_cap max_fps spec =
          Some (Inr ((batch, n, fps, w, h), [])))"
  by (auto simp: resize_stage_same_size load_video_cv_frames)

text \<open>
  The resampler of the example marks the frames it is given, and the batch comes back
  unmarked.
\<close>

theorem resize_stage_identity_witness:
  "target_size 640 480 ''640x480'' = Inr (640, 480)
   \<and> resize_stage mark_batch [0, 10, 20] 640 480 ''640x480'' = Inr ([0, 10, 20], 640, 480, [])
   \<and> VideoCapture clip_cap ''clip.mp4'' = Some 0
   \<and> process_video_cap clip_cap keep_frame 0 0 1 3 (Some (- 1)) = Some (Inr ([0, 10, 20], 3, 3, 640, 480))
   \<and> load_video_cv clip_cap keep_frame mark_batch ''clip.mp4'' 0 1 3 (Some (- 1)) ''640x480'' =
       Some (Inr (([0, 10, 20], 3, 3, 640, 480), []))"
proof -
  have t: "target_size 640 480 ''640x480'' = Inr (640, 480)"
    by (simp add: target_size_def int_str_defs)
  have v: "VideoCapture clip_cap ''clip.mp4'' = Some 0"
    by (simp add: clip_cap_def)
  have p: "process_video_cap clip_cap keep_frame 0 0 1 3 (Some (- 1)) = Some (Inr ([0, 10, 20], 3, 3, 640, 480))"
    by code_simp
  from resize_stage_identity [of mark_batch "[0, 10, 20]" 640 480 "''640x480''"
      clip_cap "''clip.mp4''" 0 keep_frame 0 1 3 "Some (- 1)" "[0, 10, 20]" 3 3 640 480 "''640x480''"] t v p
  show ?thesis by simp
qed

subsection \<open>The frame count and the batch\<close>

text \<open>
  Claim C10. The frame count that \<^verbatim>\<open>process_video_cap\<close> returns is the length of the list
  of frames it returns, and on every successful load the returned frame count is the length of
  the returned batch, for a resampler that returns as many frames as it is given.
\<close>

theorem frame_count_is_batch_length:
  "(process_video_cap vc ftt s start_sec end_sec frame_load_cap max_fps = Some (Inr (images, n, fps, w, h)) \<longrightarrow>
      n = int (length images))
   \<and> (keeps_length upscale
       \<and> load_video_cv vc ftt upscale video start_sec end_sec frame_load_cap max_fps force_size =
           Some (Inr ((images', n', fps', w', h'), calls)) \<longrightarrow>
      n' = int (length images'))"
proof (intro conjI impI)
  assume "process_video_cap vc ftt s start_sec end_sec frame_load_cap max_fps = Some (Inr (images, n, fps, w, h))"
  from process_video_cap_Inr [OF this] show "n = int (length images)" by auto
next
  assume a: "keeps_length upscale
       \<and> load_video_cv vc ftt upscale video start_sec end_sec frame_load_cap max_fps force_size =
           Some (Inr ((images', n', fps', w', h'), calls))"
  then have "load_video_cv vc ftt upscale video start_sec end_sec frame_load_cap max_fps force_size =
           Some (Inr ((images', n', fps', w', h'), calls))" by simp
  from load_video_cv_Inr [OF this] obtain s0 images0 w0 h0 where
    p: "process_video_cap vc ftt s0 start_sec end_sec frame_load_cap max_fps = Some (Inr (images0, n', fps', w0, h0))"
    and r: "resize_stage upscale images0 w0 h0 force_size = Inr (images', w', h', calls)"
    by blast
  from process_video_cap_Inr [OF p] have "n' = int (length images0)" by auto
  with resize_stage_length [OF _ r] a show "n' = int (length images')" by simp
qed

theorem frame_count_is_batch_length_witness:
  "process_video_cap clip_cap keep_frame 0 0 1 3 (Some (- 1)) = Some (Inr ([0, 10, 20], 3, 3, 640, 480))
   \<and> (3::int) = int (length [0::int, 10, 20])
   \<and> keeps_length mark_batch
   \<and> load_video_cv clip_cap keep_frame mark_batch ''clip.mp4'' 0 1 3 (Some (- 1)) ''?x256'' =
        Some (Inr (([1000, 1010, 1020], 3, 3, 344, 256), [(344, 256)]))
   \<and> (3::int) = int (length [1000::int, 1010, 1020])"
proof -
  have p: "process_video_cap clip_cap keep_frame 0 0 1 3 (Some (- 1)) = Some (Inr ([0, 10, 20], 3, 3, 640, 480))"
    by code_simp
  have l: "load_video_cv clip_cap keep_frame mark_batch ''clip.mp4'' 0 1 3 (Some (- 1)) ''?x256'' =
        Some (Inr (([1000, 1010, 1020], 3, 3, 344, 256), [(344, 256)]))"
    by code_simp
  from frame_count_is_batch_length [of clip_cap keep_frame 0 0 1 3 "Some (- 1)" "[0, 10, 20]" 3 3 640 480
      mark_batch "''clip.mp4''" "''?x256''" "[1000, 1010, 1020]" 3 3 344 256 "[(344, 256)]"]
    p l keeps_length_mark_batch
  show ?thesis by simp
qed

subsection \<open>A window that ends before it starts\<close>

lemma float_of_int_nonneg: "0 \<le> n \<Longrightarrow> 0 \<le> float_of_int n"
  unfolding float_of_int_def by (rule round_double_nonneg) simp

lemma int_float_nonpos: "x \<le> 0 \<Longrightarrow> int_float x \<le> 0"
  by (simp add: int_float_def ceiling_le_zero)

lemma initial_step_nonpos: "frame_length \<le> 0 \<Longrightarrow> 0 < cap \<Longrightarrow> initial_step frame_length cap = 1"
  using div_nonpos_pos_le0 [of frame_length cap] by (simp add: initial_step_def)

lemma reversed_window_plan:
  assumes "0 \<le> fps" and "end_sec \<noteq> 0" and "end_sec < start_sec"
  shows "sampling_plan fps frame_count start_sec end_sec frame_load_cap max_fps =
           Inr \<lparr> plan_frame_load_cap = effective_cap frame_load_cap,
                 plan_end_sec = end_sec,
                 plan_original_frame_length = original_frame_length fps start_sec end_sec,
                 plan_step = fst (clamp_max_fps max_fps 1 fps),
                 plan_new_fps = fst (snd (clamp_max_fps max_fps 1 fps)),
                 plan_start_frame = float_mul (float_of_int fps) start_sec,
                 plan_end_frame = float_mul (float_of_int fps) end_sec,
                 plan_warned = snd (snd (clamp_max_fps max_fps 1 fps)) \<rparr>"
proof -
  have e: "effective_end_sec fps frame_count end_sec = Inr end_sec"
    using assms(2) by (simp add: effective_end_sec_def)
  have "float_sub end_sec start_sec \<le> 0"
    using assms(3) round_double_mono [of "end_sec - start_sec" 0] by (simp add: float_sub_def)
  then have "float_sub end_sec start_sec * float_of_int fps \<le> 0"
    using float_of_int_nonneg [OF assms(1)] by (rule mult_nonpos_nonneg)
  then have "float_mul (float_sub end_sec start_sec) (float_of_int fps) \<le> 0"
    using round_double_mono [of "float_sub end_sec start_sec * float_of_int fps" 0]
    by (simp add: float_mul_def)
  then have "original_frame_length fps start_sec end_sec \<le> 0"
    by (simp add: original_frame_length_def int_float_nonpos)
  then have "initial_step (original_frame_length fps start_sec end_sec) (effective_cap frame_load_cap) = 1"
    by (rule initial_step_nonpos) (rule effective_cap_pos)
  then show ?thesis
    by (simp add: sampling_plan_Inr [OF e])
qed

lemma reversed_window_process:
  assumes "0 \<le> get_fps vc s" and "end_sec \<noteq> 0" and "end_sec < start_sec"
    and "read vc (set_pos_frames vc (int_float (float_mul (float_of_int (get_fps vc s)) start_sec)) s) = (Some frame, s2)"
  shows "process_video_cap vc ftt s start_sec end_sec frame_load_cap max_fps =
           Some (Inr ([ftt frame], 1, fst (snd (clamp_max_fps max_fps 1 (get_fps vc s))),
                      get_frame_width vc s, get_frame_height vc s))"
proof -
  have "float_of_int (get_fps vc s) * end_sec \<le> float_of_int (get_fps vc s) * start_sec"
    using assms(3) float_of_int_nonneg [OF assms(1)] by (intro mult_left_mono) simp_all
  then have "float_mul (float_of_int (get_fps vc s)) end_sec
      \<le> float_mul (float_of_int (get_fps vc s)) start_sec"
    unfolding float_mul_def by (rule round_double_mono)
  then show ?thesis
    by (simp add: process_video_cap_def reversed_window_plan [OF assms(1-3)]
        frame_loop_read_some [OF assms(4)])
qed

text \<open>
  Claim C5 states that a request whose positive \<^verbatim>\<open>end_sec\<close> is less than \<^verbatim>\<open>start_sec\<close> makes
  the load fail with an error of the window. The file raises no such error: on the clip,
  \<^verbatim>\<open>start_sec=5, end_sec=1\<close> returns the batch of the frame 150.
\<close>

theorem reversed_window_returns_a_frame:
  "(0::rat) < 1 \<and> (1::rat) < 5
   \<and> load_video_cv clip_cap keep_frame mark_batch ''clip.mp4'' 5 1 50 (Some (- 1)) ''Disabled'' =
        Some (Inr (([150], 1, 30, 640, 480), []))"
  by code_simp

text \<open>
  Claim C5, amended. For a request whose positive \<^verbatim>\<open>end_sec\<close> is less than \<^verbatim>\<open>start_sec\<close>, on
  an opened source with \<^verbatim>\<open>fps >= 0\<close>, the load reads once, at the frame
  \<^verbatim>\<open>int(fps * start_sec)\<close> of the rounded product. When that read reports the end of the stream the load fails with
  \<^verbatim>\<open>RuntimeError("No frames generated")\<close>; when it gives a frame, \<^verbatim>\<open>process_video_cap\<close>
  returns the batch of that one frame with the frame count 1, and so does the load when the
  size specification is \<^verbatim>\<open>Disabled\<close>.
\<close>

theorem reversed_window_reads_one_frame:
  assumes "VideoCapture vc video = Some s" and "0 \<le> get_fps vc s"
    and "0 < end_sec" and "end_sec < start_sec"
    and "read vc (set_pos_frames vc (int_float (float_mul (float_of_int (get_fps vc s)) start_sec)) s) = (r, s2)"
  shows "(r = None \<longrightarrow>
            load_video_cv vc ftt upscale video start_sec end_sec frame_load_cap max_fps force_size =
              Some (Inl NoFramesGenerated))
       \<and> (\<forall>frame. r = Some frame \<longrightarrow>
            process_video_cap vc ftt s start_sec end_sec frame_load_cap max_fps =
              Some (Inr ([ftt frame], 1, fst (snd (clamp_max_fps max_fps 1 (get_fps vc s))),
                         get_frame_width vc s, get_frame_height vc s))
            \<and> load_video_cv vc ftt upscale video start_sec end_sec frame_load_cap max_fps ''Disabled'' =
              Some (Inr (([ftt frame], 1, fst (snd (clamp_max_fps max_fps 1 (get_fps vc s))),
                          get_frame_width vc s, get_frame_height vc s), [])))"
proof (intro conjI allI impI)
  assume "r = None"
  with assms(5) have n: "fst (read vc (set_pos_frames vc (int_float (float_mul (float_of_int (get_fps vc s)) start_sec)) s)) = None"
    by simp
  have e: "effective_end_sec (get_fps vc s) (get_frame_count vc s) end_sec = Inr end_sec"
    using assms(3) by (simp add: effective_end_sec_def)
  from process_video_cap_first_read_none [OF e n, of ftt frame_load_cap max_fps] obtain fps where
    "process_video_cap vc ftt s start_sec end_sec frame_load_cap max_fps =
       Some (Inr ([], 0, fps, get_frame_width vc s, get_frame_height vc s))"
    by blast
  with assms(1) show "load_video_cv vc ftt upscale video start_sec end_sec frame_load_cap max_fps force_size =
              Some (Inl NoFramesGenerated)"
    by (rule load_video_cv_no_frames)
next
  fix frame
  assume "r = Some frame"
  with assms have p: "process_video_cap vc ftt s start_sec end_sec frame_load_cap max_fps =
              Some (Inr ([ftt frame], 1, fst (snd (clamp_max_fps max_fps 1 (get_fps vc s))),
                         get_frame_width vc s, get_frame_height vc s))"
    by (intro reversed_window_process) simp_all
  then show "process_video_cap vc ftt s start_sec end_sec frame_load_cap max_fps =
              Some (Inr ([ftt frame], 1, fst (snd (clamp_max_fps max_fps 1 (get_fps vc s))),
                         get_frame_width vc s, get_frame_height vc s))" .
  show "load_video_cv vc ftt upscale video start_sec end_sec frame_load_cap max_fps ''Disabled'' =
              Some (Inr (([ftt frame], 1, fst (snd (clamp_max_fps max_fps 1 (get_fps vc s))),
                          get_frame_width vc s, get_frame_height vc s), []))"
    by (rule load_video_cv_frames [OF assms(1) p]) (simp_all add: resize_stage_same_size)
qed

theorem reversed_window_reads_one_frame_witness:
  "VideoCapture clip_cap ''clip.mp4'' = Some 0 \<and> 0 \<le> get_fps clip_cap 0 \<and> (0::rat) < 1 \<and> (1::rat) < 5
   \<and> read clip_cap (set_pos_frames clip_cap (int_float (float_mul (float_of_int (get_fps clip_cap 0)) 5)) 0) = (Some 150, 151)
   \<and> process_video_cap clip_cap keep_frame 0 5 1 50 (Some (- 1)) = Some (Inr ([150], 1, 30, 640, 480))
   \<and> load_video_cv clip_cap keep_frame mark_batch ''clip.mp4'' 5 1 50 (Some (- 1)) ''Disabled'' =
        Some (Inr (([150], 1, 30, 640, 480), []))"
proof -
  have v: "VideoCapture clip_cap ''clip.mp4'' = Some 0" and f: "0 \<le> get_fps clip_cap 0"
    by (simp_all add: clip_cap_def)
  have w: "(0::rat) < 1" "(1::rat) < 5" by simp_all
  have r: "read clip_cap (set_pos_frames clip_cap (int_float (float_mul (float_of_int (get_fps clip_cap 0)) 5)) 0) = (Some 150, 151)"
    by code_simp
  have c: "fst (snd (clamp_max_fps (Some (- 1)) 1 (get_fps clip_cap 0))) = 30"
    and d: "get_frame_width clip_cap 0 = 640" "get_frame_height clip_cap 0 = 480"
    by (simp_all add: clamp_max_fps_def clip_cap_def)
  from reversed_window_reads_one_frame [OF v f w r, of keep_frame mark_batch 50 "Some (- 1)"] v f w r c d
  show ?thesis by (simp add: keep_frame_def)
qed

subsection \<open>No frames\<close>

lemma sampling_plan_end_sec:
  assumes "sampling_plan fps frame_count start_sec end_sec frame_load_cap max_fps = Inr p"
  shows "\<exists>e. effective_end_sec fps frame_count end_sec = Inr e"
  using assms by (cases rule: sampling_plan_cases [of fps frame_count end_sec start_sec frame_load_cap max_fps]) auto

text \<open>
  Claim C6 states that for every decoder whose first read reports the end of the stream the
  load fails with the error of no frames. A video that opens with \<^verbatim>\<open>fps = 0\<close> and whose
  every read reports the end of the stream is not read at all when \<^verbatim>\<open>end_sec\<close> is 0: the
  division \<^verbatim>\<open>frame_count / fps\<close> raises \<^verbatim>\<open>ZeroDivisionError\<close> first.
\<close>

theorem zero_fps_raises_before_any_read:
  "VideoCapture empty_cap ''empty.mp4'' = Some 0
   \<and> fst (read empty_cap (set_pos_frames empty_cap 0 0)) = None
   \<and> load_video_cv empty_cap keep_frame mark_batch ''empty.mp4'' 0 0 50 (Some (- 1)) ''Disabled'' =
        Some (Inl ZeroDivisionError)"
  by code_simp

text \<open>
  Claim C6, amended. Whenever the acquisition of an opened video collects no frame, the load
  fails with \<^verbatim>\<open>RuntimeError("No frames generated")\<close> and returns no batch; this is so whenever
  the plan is made (\<^verbatim>\<open>fps\<close> or \<^verbatim>\<open>end_sec\<close> is not 0) and the first read of the loop, at the
  start frame of the plan, reports the end of the stream. On success the returned batch is
  not empty, for a resampler that returns as many frames as it is given.
\<close>

theorem no_frames_is_an_error:
  "(VideoCapture vc video = Some s
      \<and> process_video_cap vc ftt s start_sec end_sec frame_load_cap max_fps = Some (Inr ([], n, fps, w, h)) \<longrightarrow>
      load_video_cv vc ftt upscale video start_sec end_sec frame_load_cap max_fps force_size =
        Some (Inl NoFramesGenerated))
   \<and> (VideoCapture vc video = Some s
      \<and> sampling_plan (get_fps vc s) (get_frame_count vc s) start_sec end_sec frame_load_cap max_fps = Inr p
      \<and> fst (read vc (set_pos_frames vc (int_float (plan_start_frame p)) s)) = None \<longrightarrow>
      load_video_cv vc ftt upscale video start_sec end_sec frame_load_cap max_fps force_size =
        Some (Inl NoFramesGenerated))
   \<and> (keeps_length upscale
      \<and> load_video_cv vc ftt upscale video start_sec end_sec frame_load_cap max_fps force_size =
          Some (Inr ((images, n', fps', w', h'), calls)) \<longrightarrow>
      images \<noteq> [])"
proof (intro conjI impI)
  assume "VideoCapture vc video = Some s
      \<and> process_video_cap vc ftt s start_sec end_sec frame_load_cap max_fps = Some (Inr ([], n, fps, w, h))"
  then show "load_video_cv vc ftt upscale video start_sec end_sec frame_load_cap max_fps force_size =
        Some (Inl NoFramesGenerated)"
    by (auto intro: load_video_cv_no_frames)
next
  assume a: "VideoCapture vc video = Some s
      \<and> sampling_plan (get_fps vc s) (get_frame_count vc s) start_sec end_sec frame_load_cap max_fps = Inr p
      \<and> fst (read vc (set_pos_frames vc (int_float (plan_start_frame p)) s)) = None"
  then obtain e where e: "effective_end_sec (get_fps vc s) (get_frame_count vc s) end_sec = Inr e"
    using sampling_plan_end_sec by blast
  from a sampling_plan_Inr [OF e, of start_sec frame_load_cap max_fps]
  have "plan_start_frame p = float_mul (float_of_int (get_fps vc s)) start_sec" by auto
  with a have n: "fst (read vc (set_pos_frames vc (int_float (float_mul (float_of_int (get_fps vc s)) start_sec)) s)) = None"
    by simp
  from process_video_cap_first_read_none [OF e n, of ftt frame_load_cap max_fps] obtain fps0 where
    "process_video_cap vc ftt s start_sec end_sec frame_load_cap max_fps =
       Some (Inr ([], 0, fps0, get_frame_width vc s, get_frame_height vc s))"
    by blast
  with a show "load_video_cv vc ftt upscale video start_sec end_sec frame_load_cap max_fps force_size =
        Some (Inl NoFramesGenerated)"
    by (auto intro: load_video_cv_no_frames)
next
  assume a: "keeps_length upscale
      \<and> load_video_cv vc ftt upscale video start_sec end_sec frame_load_cap max_fps force_size =
          Some (Inr ((images, n', fps', w', h'), calls))"
  then have "load_video_cv vc ftt upscale video start_sec end_sec frame_load_cap max_fps force_size =
          Some (Inr ((images, n', fps', w', h'), calls))" by simp
  from load_video_cv_Inr [OF this] obtain images0 w0 h0 where
    "images0 \<noteq> []" and "resize_stage upscale images0 w0 h0 force_size = Inr (images, w', h', calls)"
    by blast
  with resize_stage_length [of upscale images0 w0 h0 force_size images w' h' calls] a
  show "images \<noteq> []" by auto
qed

theorem no_frames_is_an_error_witness:
  "VideoCapture clip_cap ''clip.mp4'' = Some 0
   \<and> process_video_cap clip_cap keep_frame 0 20 0 50 (Some (- 1)) = Some (Inr ([], 0, 30, 640, 480))
   \<and> sampling_plan (get_fps clip_cap 0) (get_frame_count clip_cap 0) 20 0 50 (Some (- 1)) = Inr late_plan
   \<and> fst (read clip_cap (set_pos_frames clip_cap (int_float (plan_start_frame late_plan)) 0)) = None
   \<and> load_video_cv clip_cap keep_frame mark_batch ''clip.mp4'' 20 0 50 (Some (- 1)) ''?x256'' =
        Some (Inl NoFramesGenerated)
   \<and> keeps_length mark_batch
   \<and> load_video_cv clip_cap keep_frame mark_batch ''clip.mp4'' 0 1 3 (Some (- 1)) ''?x256'' =
        Some (Inr (([1000, 1010, 1020], 3, 3, 344, 256), [(344, 256)]))
   \<and> [1000, 1010, 1020] \<noteq> ([] :: int list)"
proof -
  have v: "VideoCapture clip_cap ''clip.mp4'' = Some 0"
    by (simp add: clip_cap_def)
  have p: "process_video_cap clip_cap keep_frame 0 20 0 50 (Some (- 1)) = Some (Inr ([], 0, 30, 640, 480))"
    by code_simp
  have q: "sampling_plan (get_fps clip_cap 0) (get_frame_count clip_cap 0) 20 0 50 (Some (- 1)) = Inr late_plan"
    by code_simp
  have r: "fst (read clip_cap (set_pos_frames clip_cap (int_float (plan_start_frame late_plan)) 0)) = None"
    by (simp add: clip_cap_def late_plan_def int_float_def)
  have l: "load_video_cv clip_cap keep_frame mark_batch ''clip.mp4'' 0 1 3 (Some (- 1)) ''?x256'' =
        Some (Inr (([1000, 1010, 1020], 3, 3, 344, 256), [(344, 256)]))"
    by code_simp
  have first: "load_video_cv clip_cap keep_frame mark_batch ''clip.mp4'' 20 0 50 (Some (- 1)) ''?x256'' =
        Some (Inl NoFramesGenerated)"
    using no_frames_is_an_error [where vc = clip_cap and video = "''clip.mp4''" and s = 0
        and ftt = keep_frame and start_sec = 20 and end_sec = 0 and frame_load_cap = 50
        and max_fps = "Some (- 1)" and p = late_plan and upscale = mark_batch and force_size = "''?x256''"]
      v q r by blast
  have last: "[1000, 1010, 1020] \<noteq> ([] :: int list)" by simp
  from v p q r first keeps_length_mark_batch l last show ?thesis by blast
qed

subsection \<open>The size of the acquired batch\<close>

text \<open>
  Claim C7. For every start, end and stride and every decoder, the loop run with a positive
  cap returns at most that many frames, as many as it counts. The batch acquired by a
  successful load has between 1 and the effective \<^verbatim>\<open>frame_load_cap\<close> frames. The loop
  stops as soon as the counter reaches the cap, and it stops when \<^verbatim>\<open>curr_frame >= end_frame\<close>
  after the frame was appended and before \<^verbatim>\<open>curr_frame\<close> is advanced: in both cases the
  result ends with the frame just read and the decoder is left as that read left it.
\<close>

theorem acquisition_count_bounds:
  "(0 < cap \<longrightarrow>
      (\<exists>imgs n s'. frame_loop vc ftt cap end_frame step s curr_frame [] 0 = Some (imgs, n, s')
          \<and> int (length imgs) = n \<and> n \<le> cap))
   \<and> (load_video_cv vc ftt upscale video start_sec end_sec frame_load_cap max_fps force_size =
         Some (Inr (res, calls)) \<longrightarrow>
      (\<exists>s0 images n fps w h. VideoCapture vc video = Some s0
          \<and> process_video_cap vc ftt s0 start_sec end_sec frame_load_cap max_fps = Some (Inr (images, n, fps, w, h))
          \<and> 1 \<le> int (length images) \<and> int (length images) \<le> effective_cap frame_load_cap))
   \<and> (read vc (set_pos_frames vc (int_float curr_frame_c) s_c) = (Some frame_c, t_c)
        \<and> 0 < cap_c \<and> cap_c \<le> frames_added_c + 1 \<longrightarrow>
      frame_loop vc ftt cap_c end_frame_c step_c s_c curr_frame_c images_c frames_added_c =
        Some (images_c @ [ftt frame_c], frames_added_c + 1, t_c))
   \<and> (read vc (set_pos_frames vc (int_float curr_frame_e) s_e) = (Some frame_e, t_e)
        \<and> end_frame_e \<le> curr_frame_e \<longrightarrow>
      frame_loop vc ftt cap_e end_frame_e step_e s_e curr_frame_e images_e frames_added_e =
        Some (images_e @ [ftt frame_e], frames_added_e + 1, t_e))"
proof (intro conjI impI)
  assume "0 < cap"
  from frame_loop_returns [OF this, of 0 vc ftt end_frame step s curr_frame "[]"] this
  show "\<exists>imgs n s'. frame_loop vc ftt cap end_frame step s curr_frame [] 0 = Some (imgs, n, s')
          \<and> int (length imgs) = n \<and> n \<le> cap"
    by auto
next
  assume "load_video_cv vc ftt upscale video start_sec end_sec frame_load_cap max_fps force_size =
         Some (Inr (res, calls))"
  then have "load_video_cv vc ftt upscale video start_sec end_sec frame_load_cap max_fps force_size =
         Some (Inr ((fst res, fst (snd res), fst (snd (snd res)), fst (snd (snd (snd res))),
                     snd (snd (snd (snd res)))), calls))"
    by simp
  from load_video_cv_Inr [OF this] obtain s0 images w h where
    v: "VideoCapture vc video = Some s0"
    and p: "process_video_cap vc ftt s0 start_sec end_sec frame_load_cap max_fps =
          Some (Inr (images, fst (snd res), fst (snd (snd res)), w, h))"
    and ne: "images \<noteq> []"
    by blast
  from process_video_cap_Inr [OF p] have "int (length images) \<le> effective_cap frame_load_cap"
    by auto
  moreover from ne have "1 \<le> int (length images)" by (cases images) simp_all
  ultimately show "\<exists>s0 images n fps w h. VideoCapture vc video = Some s0
          \<and> process_video_cap vc ftt s0 start_sec end_sec frame_load_cap max_fps = Some (Inr (images, n, fps, w, h))
          \<and> 1 \<le> int (length images) \<and> int (length images) \<le> effective_cap frame_load_cap"
    using v p by blast
next
  assume "read vc (set_pos_frames vc (int_float curr_frame_c) s_c) = (Some frame_c, t_c)
        \<and> 0 < cap_c \<and> cap_c \<le> frames_added_c + 1"
  then show "frame_loop vc ftt cap_c end_frame_c step_c s_c curr_frame_c images_c frames_added_c =
        Some (images_c @ [ftt frame_c], frames_added_c + 1, t_c)"
    by (simp add: frame_loop_read_some)
next
  assume "read vc (set_pos_frames vc (int_float curr_frame_e) s_e) = (Some frame_e, t_e)
        \<and> end_frame_e \<le> curr_frame_e"
  then show "frame_loop vc ftt cap_e end_frame_e step_e s_e curr_frame_e images_e frames_added_e =
        Some (images_e @ [ftt frame_e], frames_added_e + 1, t_e)"
    by (simp add: frame_loop_read_some)
qed

theorem acquisition_count_bounds_witness:
  "(0::int) < 3
   \<and> (\<exists>imgs n s'. frame_loop clip_cap keep_frame 3 300 10 0 0 [] 0 = Some (imgs, n, s')
          \<and> int (length imgs) = n \<and> n \<le> 3)
   \<and> load_video_cv clip_cap keep_frame mark_batch ''clip.mp4'' 0 1 3 (Some (- 1)) ''Disabled'' =
        Some (Inr (([0, 10, 20], 3, 3, 640, 480), []))
   \<and> (\<exists>s0 images n fps w h. VideoCapture clip_cap ''clip.mp4'' = Some s0
          \<and> process_video_cap clip_cap keep_frame s0 0 1 3 (Some (- 1)) = Some (Inr (images, n, fps, w, h))
          \<and> 1 \<le> int (length images) \<and> int (length images) \<le> effective_cap 3)
   \<and> read clip_cap (set_pos_frames clip_cap (int_float 20) 11) = (Some 20, 21)
   \<and> frame_loop clip_cap keep_frame 3 300 10 11 20 [0, 10] 2 = Some ([0, 10] @ [keep_frame 20], 2 + 1, 21)
   \<and> read clip_cap (set_pos_frames clip_cap (int_float 30) 21) = (Some 30, 31)
   \<and> (30::rat) \<le> 30
   \<and> frame_loop clip_cap keep_frame 50 30 10 21 30 [0, 10, 20] 3 = Some ([0, 10, 20] @ [keep_frame 30], 3 + 1, 31)"
proof -
  have l: "load_video_cv clip_cap keep_frame mark_batch ''clip.mp4'' 0 1 3 (Some (- 1)) ''Disabled'' =
        Some (Inr (([0, 10, 20], 3, 3, 640, 480), []))"
    by code_simp
  have r1: "read clip_cap (set_pos_frames clip_cap (int_float 20) 11) = (Some 20, 21)"
    and r2: "read clip_cap (set_pos_frames clip_cap (int_float 30) 21) = (Some 30, 31)"
    by (simp_all add: clip_cap_def int_float_def)
  have c: "(0::int) < 3" "(3::int) \<le> 2 + 1" "(30::rat) \<le> 30" by simp_all
  from acquisition_count_bounds [where cap = 3 and vc = clip_cap and ftt = keep_frame
      and end_frame = 300 and step = 10 and s = 0 and curr_frame = 0
      and upscale = mark_batch and video = "''clip.mp4''" and start_sec = 0 and end_sec = 1
      and frame_load_cap = 3 and max_fps = "Some (- 1)" and force_size = "''Disabled''"
      and res = "([0, 10, 20], 3, 3, 640, 480)" and calls = "[]"
      and curr_frame_c = 20 and s_c = 11 and frame_c = 20 and t_c = 21 and cap_c = 3
      and frames_added_c = 2 and end_frame_c = 300 and step_c = 10 and images_c = "[0, 10]"
      and curr_frame_e = 30 and s_e = 21 and frame_e = 30 and t_e = 31 and cap_e = 50
      and frames_added_e = 3 and end_frame_e = 30 and step_e = 10 and images_e = "[0, 10, 20]"]
    l r1 r2 c
  show ?thesis by blast
qed

end
